theory Spec2Isabelle
  imports Main
begin

section \<open>Python values\<close>

text \<open>
  The pipeline works on untyped data: field records are dictionaries
  (\<^verbatim>\<open>Dict[str, Any]\<close>) and every LLM answer is whatever \<^verbatim>\<open>json.loads\<close> returns.
  Both are values of one universe. A dictionary is an association list in insertion
  order; floating point numbers are left out of the universe. Strings are
  lists of characters. \<^verbatim>\<open>str.lower\<close>, a function of Python's library over
  all of Unicode, is a parameter \<open>lower\<close> of the model, and every theorem
  holds for whatever function it is.
\<close>

datatype pyval =
    PNone
  | PBool bool
  | PInt int
  | PStr string
  | PList "pyval list"
  | PDict "(pyval \<times> pyval) list"

type_synonym pydict = "(pyval \<times> pyval) list"

text \<open>Every exception the modelled code can raise is a value.\<close>

datatype pyerr = KeyError | IndexError | TypeError | AttributeError | ValueError | RequestFailed

definition ebind :: "pyerr + 'a \<Rightarrow> ('a \<Rightarrow> pyerr + 'b) \<Rightarrow> pyerr + 'b" where
  "ebind m f = (case m of Inl e \<Rightarrow> Inl e | Inr x \<Rightarrow> f x)"

text \<open>A list comprehension whose element expression may raise: the first failure wins.\<close>

fun emap :: "('a \<Rightarrow> pyerr + 'b) \<Rightarrow> 'a list \<Rightarrow> pyerr + 'b list" where
  "emap f [] = Inr []"
| "emap f (x # xs) = ebind (f x) (\<lambda>y. ebind (emap f xs) (\<lambda>ys. Inr (y # ys)))"

subsection \<open>Truth, integers, keys\<close>

fun py_truthy :: "pyval \<Rightarrow> bool" where
  "py_truthy PNone = False"
| "py_truthy (PBool b) = b"
| "py_truthy (PInt i) = (i \<noteq> 0)"
| "py_truthy (PStr s) = (s \<noteq> [])"
| "py_truthy (PList xs) = (xs \<noteq> [])"
| "py_truthy (PDict d) = (d \<noteq> [])"

text \<open>\<^verbatim>\<open>bool\<close> is a subclass of \<^verbatim>\<open>int\<close>: \<^verbatim>\<open>True\<close> indexes, compares and hashes as 1.\<close>

fun as_int :: "pyval \<Rightarrow> int option" where
  "as_int (PInt i) = Some i"
| "as_int (PBool b) = Some (if b then 1 else 0)"
| "as_int _ = None"

fun hashable :: "pyval \<Rightarrow> bool" where
  "hashable (PList xs) = False"
| "hashable (PDict d) = False"
| "hashable _ = True"

fun key_norm :: "pyval \<Rightarrow> pyval" where
  "key_norm (PBool b) = PInt (if b then 1 else 0)"
| "key_norm v = v"

definition key_eq :: "pyval \<Rightarrow> pyval \<Rightarrow> bool" where
  "key_eq a b = (key_norm a = key_norm b)"

subsection \<open>Dictionaries\<close>

fun dict_find :: "pydict \<Rightarrow> pyval \<Rightarrow> pyval option" where
  "dict_find [] k = None"
| "dict_find ((k', v) # d) k = (if key_eq k' k then Some v else dict_find d k)"

text \<open>\<^verbatim>\<open>d[k]\<close>\<close>

definition dict_getitem :: "pydict \<Rightarrow> pyval \<Rightarrow> pyerr + pyval" where
  "dict_getitem d k =
     (if \<not> hashable k then Inl TypeError
      else case dict_find d k of None \<Rightarrow> Inl KeyError | Some v \<Rightarrow> Inr v)"

text \<open>\<^verbatim>\<open>d.get(k, default)\<close>, for a string key\<close>

definition dict_get :: "pydict \<Rightarrow> string \<Rightarrow> pyval \<Rightarrow> pyval" where
  "dict_get d k dflt = (case dict_find d (PStr k) of None \<Rightarrow> dflt | Some v \<Rightarrow> v)"

text \<open>
  \<^verbatim>\<open>d[k] = v\<close> for a hashable key: an existing key keeps its place (and its key
  object) and takes the new value, a new key goes to the end.
\<close>

fun dict_setitem :: "pydict \<Rightarrow> pyval \<Rightarrow> pyval \<Rightarrow> pydict" where
  "dict_setitem [] k v = [(k, v)]"
| "dict_setitem ((k', v') # d) k v =
     (if key_eq k' k then (k', v) # d else (k', v') # dict_setitem d k v)"

definition py_setitem :: "pydict \<Rightarrow> pyval \<Rightarrow> pyval \<Rightarrow> pyerr + pydict" where
  "py_setitem d k v = (if hashable k then Inr (dict_setitem d k v) else Inl TypeError)"

subsection \<open>Subscripts, iteration, comparison\<close>

text \<open>
  The position a subscript selects in a sequence of length \<open>n\<close>: negative
  subscripts count from the end, a subscript that is no integer is a
  \<^verbatim>\<open>TypeError\<close>, one out of range an \<^verbatim>\<open>IndexError\<close>.
\<close>

definition py_index :: "nat \<Rightarrow> pyval \<Rightarrow> pyerr + nat" where
  "py_index n k =
     (case as_int k of
        None \<Rightarrow> Inl TypeError
      | Some i \<Rightarrow>
          (let j = (if i < 0 then i + int n else i)
           in if 0 \<le> j \<and> j < int n then Inr (nat j) else Inl IndexError))"

definition list_getitem :: "'a list \<Rightarrow> pyval \<Rightarrow> pyerr + 'a" where
  "list_getitem xs k = ebind (py_index (length xs) k) (\<lambda>j. Inr (xs ! j))"

text \<open>\<^verbatim>\<open>x[k]\<close> on any value\<close>

fun py_getitem :: "pyval \<Rightarrow> pyval \<Rightarrow> pyerr + pyval" where
  "py_getitem (PDict d) k = dict_getitem d k"
| "py_getitem (PList xs) k = list_getitem xs k"
| "py_getitem (PStr s) k = ebind (list_getitem s k) (\<lambda>c. Inr (PStr [c]))"
| "py_getitem _ k = Inl TypeError"

text \<open>\<^verbatim>\<open>for x in v\<close>: the items a loop over \<open>v\<close> visits\<close>

fun py_iter :: "pyval \<Rightarrow> pyerr + pyval list" where
  "py_iter (PList xs) = Inr xs"
| "py_iter (PDict d) = Inr (map fst d)"
| "py_iter (PStr s) = Inr (map (\<lambda>c. PStr [c]) s)"
| "py_iter _ = Inl TypeError"

text \<open>\<^verbatim>\<open>v.get(k, default)\<close> on any value: only a dictionary has the method\<close>

fun py_get :: "pyval \<Rightarrow> string \<Rightarrow> pyval \<Rightarrow> pyerr + pyval" where
  "py_get (PDict d) k dflt = Inr (dict_get d k dflt)"
| "py_get _ k dflt = Inl AttributeError"

text \<open>\<^verbatim>\<open>v < n\<close> for an integer \<open>n\<close>\<close>

definition py_lt_int :: "pyval \<Rightarrow> int \<Rightarrow> pyerr + bool" where
  "py_lt_int v n = (case as_int v of None \<Rightarrow> Inl TypeError | Some i \<Rightarrow> Inr (i < n))"

text \<open>
  \<^verbatim>\<open>list(set(xs))\<close>: an unhashable element is a \<^verbatim>\<open>TypeError\<close>; of equal elements the
  first stays. Python leaves the order of the result open; the model lists
  the elements in order of first occurrence, and no theorem below depends on
  that order.
\<close>

definition set_add :: "pyval list \<Rightarrow> pyval \<Rightarrow> pyval list" where
  "set_add s x = (if list_ex (\<lambda>y. key_eq y x) s then s else s @ [x])"

definition py_list_set :: "pyval list \<Rightarrow> pyerr + pyval list" where
  "py_list_set xs = (if list_all hashable xs then Inr (foldl set_add [] xs) else Inl TypeError)"

subsection \<open>Strings\<close>

text \<open>\<^verbatim>\<open>v.lower()\<close> on any value: only a string has the method\<close>

fun py_lower :: "(string \<Rightarrow> string) \<Rightarrow> pyval \<Rightarrow> pyerr + string" where
  "py_lower lower (PStr s) = Inr (lower s)"
| "py_lower lower _ = Inl AttributeError"

text \<open>\<^verbatim>\<open>str(n)\<close> for a natural number\<close>

fun str_of_nat :: "nat \<Rightarrow> string" where
  "str_of_nat n =
     (if n < 10 then [''0123456789'' ! n]
      else str_of_nat (n div 10) @ [''0123456789'' ! (n mod 10)])"

declare str_of_nat.simps [simp del]

section \<open>The LLM as an oracle\<close>

text \<open>
  Each stage sends one request and decodes the answer: the call
  \<^verbatim>\<open>self.client.messages.create\<close>, the extraction of the answer's text, the
  removal of a code fence and \<^verbatim>\<open>json.loads\<close>. What the stage sees of all this is
  one of three outcomes: an exception before decoding, a
  \<^verbatim>\<open>JSONDecodeError\<close>, or the decoded value.
\<close>

datatype llm_reply = CallFailed | NotJSON | Parsed pyval

text \<open>
  How an outcome comes about. \<^verbatim>\<open>text.strip()\<close> removes the white space at both
  ends (here: the ASCII white space).
\<close>

definition is_space :: "char \<Rightarrow> bool" where
  "is_space c = (c \<in> set [CHR 0x09, CHR 0x0A, CHR 0x0B, CHR 0x0C, CHR 0x0D,
                             CHR 0x1C, CHR 0x1D, CHR 0x1E, CHR 0x1F, CHR '' ''])"

definition py_strip :: "string \<Rightarrow> string" where
  "py_strip s = rev (dropWhile is_space (rev (dropWhile is_space s)))"

text \<open>\<^verbatim>\<open>s.split("\n")\<close> and \<^verbatim>\<open>"\n".join(lines)\<close>\<close>

fun split_lines :: "string \<Rightarrow> string list" where
  "split_lines [] = [[]]"
| "split_lines (c # s) =
     (if c = CHR 0x0A then [] # split_lines s
      else (case split_lines s of l # ls \<Rightarrow> (c # l) # ls | [] \<Rightarrow> [[c]]))"

fun join_lines :: "string list \<Rightarrow> string" where
  "join_lines [] = []"
| "join_lines [l] = l"
| "join_lines (l # ls) = l @ CHR 0x0A # join_lines ls"

definition starts_with :: "string \<Rightarrow> string \<Rightarrow> bool" where
  "starts_with p s = (take (length p) s = p)"

text \<open>
  The text handed to \<^verbatim>\<open>json.loads\<close>: the answer without surrounding white
  space and, when it starts with a fence of three backquotes (the character
  \<open>0x60\<close>), without its first and last line and without a leading \<^verbatim>\<open>json\<close>.
\<close>

definition clean_response :: "string \<Rightarrow> string" where
  "clean_response text =
     (let response_text = py_strip text in
      if starts_with (replicate 3 (CHR 0x60)) response_text then
        (let lines = split_lines response_text;
             response_text' =
               (if length lines > 2 then join_lines (butlast (tl lines)) else response_text)
         in if starts_with ''json'' response_text' then py_strip (drop 4 response_text')
            else response_text')
      else response_text)"

text \<open>
  \<open>response\<close> is the text of the answer, or \<open>None\<close> when the request or the
  reading of its text raised; \<open>loads\<close> is \<^verbatim>\<open>json.loads\<close>, with \<open>None\<close> for a
  \<^verbatim>\<open>JSONDecodeError\<close>.
\<close>

definition decode :: "(string \<Rightarrow> pyval option) \<Rightarrow> string option \<Rightarrow> llm_reply" where
  "decode loads response =
     (case response of
        None \<Rightarrow> CallFailed
      | Some text \<Rightarrow>
          (case loads (clean_response text) of None \<Rightarrow> NotJSON | Some v \<Rightarrow> Parsed v))"

section \<open>Deduplication\<close>

text \<open>
  The summary \<^verbatim>\<open>_deduplicate_batch\<close> builds for its prompt. Its only trace in
  the result is the \<^verbatim>\<open>KeyError\<close> of a record without \<^verbatim>\<open>field_name\<close> or
  \<^verbatim>\<open>source_pdf\<close>, raised before the request is sent.
\<close>

definition dedup_summary :: "pydict list \<Rightarrow> pyerr + pyval list" where
  "dedup_summary fields =
     emap (\<lambda>(idx, field).
        ebind (dict_getitem field (PStr ''field_name'')) (\<lambda>name.
        ebind (dict_getitem field (PStr ''source_pdf'')) (\<lambda>src.
        Inr (PDict [(PStr ''index'', PInt (int idx)),
                    (PStr ''field_name'', name),
                    (PStr ''source_pdf'', src),
                    (PStr ''type'', dict_get field ''field_type'' (PStr ''text''))]))))
       (enumerate 0 fields)"

text \<open>
  One pass of the merge loop of \<^verbatim>\<open>_deduplicate_batch\<close>: \<open>None\<close> is the
  \<^verbatim>\<open>continue\<close> of a group without indices, \<open>Some\<close> the record appended.
  \<^verbatim>\<open>.copy()\<close> is the identity on values.
\<close>

definition merge_group :: "pydict list \<Rightarrow> pyval \<Rightarrow> pyerr + pydict option" where
  "merge_group fields grp =
     ebind (py_getitem grp (PStr ''field_indices'')) (\<lambda>indices.
       if \<not> py_truthy indices then Inr None
       else
         ebind (py_getitem indices (PInt 0)) (\<lambda>first.
         ebind (list_getitem fields first) (\<lambda>base_field.
         ebind (py_getitem grp (PStr ''canonical_name'')) (\<lambda>canonical_name.
         ebind (py_iter indices) (\<lambda>idxs.
         ebind (emap (\<lambda>idx. ebind (list_getitem fields idx)
                               (\<lambda>f. dict_getitem f (PStr ''source_pdf''))) idxs) (\<lambda>sources.
         ebind (py_list_set sources) (\<lambda>srcs.
           Inr (Some (dict_setitem
                        (dict_setitem base_field (PStr ''field_name'') canonical_name)
                        (PStr ''sources'') (PList srcs))))))))))"

fun merge_loop :: "pydict list \<Rightarrow> pyval list \<Rightarrow> pydict list \<Rightarrow> pyerr + pydict list" where
  "merge_loop fields [] deduplicated = Inr deduplicated"
| "merge_loop fields (grp # rest) deduplicated =
     ebind (merge_group fields grp) (\<lambda>r.
       case r of
         None \<Rightarrow> merge_loop fields rest deduplicated
       | Some merged \<Rightarrow> merge_loop fields rest (deduplicated @ [merged]))"

definition deduplicate_batch :: "llm_reply \<Rightarrow> pydict list \<Rightarrow> pyerr + pydict list" where
  "deduplicate_batch reply fields =
     ebind (dedup_summary fields) (\<lambda>field_summary.
       case reply of
         CallFailed \<Rightarrow> Inl RequestFailed
       | NotJSON \<Rightarrow> Inr fields
       | Parsed groups \<Rightarrow> ebind (py_iter groups) (\<lambda>gs. merge_loop fields gs []))"

text \<open>\<^verbatim>\<open>range(0, n, step)\<close>\<close>

definition py_range_step :: "nat \<Rightarrow> int \<Rightarrow> pyerr + nat list" where
  "py_range_step n step =
     (if step = 0 then Inl ValueError
      else if step < 0 then Inr []
      else Inr (map (\<lambda>j. j * nat step) [0 ..< (n + nat step - 1) div nat step]))"

text \<open>
  The batch loop of \<^verbatim>\<open>_deduplicate_fields\<close>. The oracle \<open>llm\<close> gives the
  outcome of the \<open>call\<close>-th deduplication request; the batch at offset \<open>i\<close> is
  \<^verbatim>\<open>fields[i:i + batch_size]\<close>.
\<close>

fun dedup_loop ::
  "(nat \<Rightarrow> llm_reply) \<Rightarrow> pydict list \<Rightarrow> nat \<Rightarrow> nat \<Rightarrow> nat list \<Rightarrow> pydict list
     \<Rightarrow> pyerr + pydict list" where
  "dedup_loop llm fields batch_size call [] all_deduplicated = Inr all_deduplicated"
| "dedup_loop llm fields batch_size call (i # rest) all_deduplicated =
     ebind (deduplicate_batch (llm call) (take batch_size (drop i fields))) (\<lambda>deduplicated_batch.
       dedup_loop llm fields batch_size (Suc call) rest (all_deduplicated @ deduplicated_batch))"

definition deduplicate_fields ::
  "(nat \<Rightarrow> llm_reply) \<Rightarrow> pydict list \<Rightarrow> int \<Rightarrow> pyerr + pydict list" where
  "deduplicate_fields llm fields batch_size =
     (if fields = [] then Inr []
      else ebind (py_range_step (length fields) batch_size) (\<lambda>offsets.
             dedup_loop llm fields (nat batch_size) 0 offsets []))"

section \<open>Grouping\<close>

definition group_summary :: "pydict list \<Rightarrow> pyerr + pyval list" where
  "group_summary fields =
     emap (\<lambda>(idx, field).
        ebind (dict_getitem field (PStr ''field_name'')) (\<lambda>name.
        Inr (PDict [(PStr ''index'', PInt (int idx)),
                    (PStr ''field_name'', name),
                    (PStr ''type'', dict_get field ''field_type'' (PStr ''text''))])))
       (enumerate 0 fields)"

text \<open>The groups \<^verbatim>\<open>_group_fields\<close> falls back to: one singleton group per field.\<close>

definition fallback_groups :: "nat \<Rightarrow> pyval" where
  "fallback_groups n =
     PList (map (\<lambda>idx. PDict [(PStr ''group_name'', PStr (''group_'' @ str_of_nat idx)),
                               (PStr ''field_indices'', PList [PInt (int idx)]),
                               (PStr ''description'', PStr [])])
                [0 ..< n])"

text \<open>The inner loop of \<^verbatim>\<open>_group_fields\<close>, over the indices of one group.\<close>

fun tag_loop :: "pydict list \<Rightarrow> nat \<Rightarrow> pyval list \<Rightarrow> pydict list \<Rightarrow> pyerr + pydict list" where
  "tag_loop fields group_id [] grouped_fields = Inr grouped_fields"
| "tag_loop fields group_id (field_idx # rest) grouped_fields =
     ebind (py_lt_int field_idx (int (length fields))) (\<lambda>inside.
       if inside then
         ebind (list_getitem fields field_idx) (\<lambda>field.
           tag_loop fields group_id rest
             (grouped_fields @ [dict_setitem field (PStr ''_group_id'') (PInt (int group_id))]))
       else tag_loop fields group_id rest grouped_fields)"

text \<open>The outer loop, over \<^verbatim>\<open>enumerate(groups)\<close>.\<close>

fun group_loop :: "pydict list \<Rightarrow> nat \<Rightarrow> pyval list \<Rightarrow> pydict list \<Rightarrow> pyerr + pydict list" where
  "group_loop fields group_id [] grouped_fields = Inr grouped_fields"
| "group_loop fields group_id (grp # rest) grouped_fields =
     ebind (py_getitem grp (PStr ''field_indices'')) (\<lambda>indices.
     ebind (py_iter indices) (\<lambda>idxs.
     ebind (tag_loop fields group_id idxs grouped_fields) (\<lambda>grouped_fields'.
       group_loop fields (Suc group_id) rest grouped_fields')))"

definition group_fields :: "llm_reply \<Rightarrow> pydict list \<Rightarrow> pyerr + pydict list" where
  "group_fields reply fields =
     (if fields = [] then Inr []
      else
        ebind (group_summary fields) (\<lambda>field_summary.
        ebind (case reply of
                 CallFailed \<Rightarrow> Inl RequestFailed
               | NotJSON \<Rightarrow> Inr (fallback_groups (length fields))
               | Parsed groups \<Rightarrow> Inr groups) (\<lambda>groups.
        ebind (py_iter groups) (\<lambda>gs.
          group_loop fields 0 gs []))))"

section \<open>Labels and conditional logic\<close>

text \<open>
  \<^verbatim>\<open>_generate_label_and_explanation\<close>: the whole request sits in a
  \<^verbatim>\<open>try\<close> whose handler catches every exception and builds the templated
  answer; \<^verbatim>\<open>field_name.lower()\<close> in the handler is outside any \<^verbatim>\<open>try\<close>.
\<close>

definition generate_label_and_explanation ::
  "(string \<Rightarrow> string) \<Rightarrow> llm_reply \<Rightarrow> pyval \<Rightarrow> pyerr + pyval" where
  "generate_label_and_explanation lower reply field_name =
     (case reply of
        Parsed result \<Rightarrow> Inr result
      | _ \<Rightarrow>
          ebind (py_lower lower field_name) (\<lambda>l1.
          ebind (py_lower lower field_name) (\<lambda>l2.
            Inr (PDict [(PStr ''label'', PStr (''What is your '' @ l1 @ ''?'')),
                        (PStr ''explanation'', PStr (''Enter your '' @ l2))]))))"

definition cond_summary :: "pydict list \<Rightarrow> pyerr + pyval list" where
  "cond_summary fields =
     emap (\<lambda>(idx, field).
        ebind (dict_getitem field (PStr ''field_name'')) (\<lambda>name.
        Inr (PDict [(PStr ''index'', PInt (int idx)), (PStr ''field_name'', name)])))
       (enumerate 0 fields)"

definition fallback_logic :: pyval where
  "fallback_logic =
     PDict [(PStr ''parent_questions'', PList []), (PStr ''field_relationships'', PDict [])]"

text \<open>The entry stored for one parent question.\<close>

definition parent_entry :: "pyval \<Rightarrow> pyerr + pyval" where
  "parent_entry parent_q =
     ebind (py_getitem parent_q (PStr ''label'')) (\<lambda>label.
     ebind (py_getitem parent_q (PStr ''type'')) (\<lambda>qtype.
     ebind (py_get parent_q ''options'' PNone) (\<lambda>options.
       Inr (PDict [(PStr ''label'', label),
                   (PStr ''type'', qtype),
                   (PStr ''required'', PBool False),
                   (PStr ''options'', options),
                   (PStr ''_metadata'',
                      PDict [(PStr ''is_parent_question'', PBool True),
                             (PStr ''generated'', PBool True)])]))))"

fun parents_loop :: "pyval list \<Rightarrow> pydict \<Rightarrow> pyerr + pydict" where
  "parents_loop [] output = Inr output"
| "parents_loop (parent_q # rest) output =
     ebind (py_getitem parent_q (PStr ''question_id'')) (\<lambda>q_id.
     ebind (parent_entry parent_q) (\<lambda>entry.
     ebind (py_setitem output q_id entry) (\<lambda>output'.
       parents_loop rest output')))"

text \<open>\<^verbatim>\<open>parent_id\<close> and \<^verbatim>\<open>parent_condition\<close> of a field, from its relationship.\<close>

definition parent_of :: "pyval \<Rightarrow> pyval \<times> pyval" where
  "parent_of relationship =
     (if py_truthy relationship then
        (case relationship of
           PDict r \<Rightarrow> (dict_get r ''parent_id'' PNone, dict_get r ''condition'' PNone)
         | _ \<Rightarrow> (relationship, PNone))
      else (PNone, PNone))"

definition field_metadata :: "pyval \<Rightarrow> nat \<Rightarrow> pydict \<Rightarrow> pyval \<Rightarrow> pydict" where
  "field_metadata name idx field relationship =
     (let order_index = dict_get field ''_group_id'' (PInt (int idx));
          (parent_id, parent_condition) = parent_of relationship;
          metadata =
            [(PStr ''field_name'', name),
             (PStr ''source_pdf'',
                dict_get field ''sources'' (PList [dict_get field ''source_pdf'' PNone])),
             (PStr ''order_index'', order_index),
             (PStr ''parent'', parent_id),
             (PStr ''position'', PNone)]
      in if py_truthy parent_condition
         then dict_setitem metadata (PStr ''parent_condition'') parent_condition
         else metadata)"

text \<open>
  The key and the entry one pass of the field loop stores. The source stores
  the entry and then adds \<^verbatim>\<open>options\<close> and \<^verbatim>\<open>max_length\<close> to the stored entry;
  neither addition can raise, so the entry is completed here before it is
  stored.
\<close>

definition field_entry ::
  "(string \<Rightarrow> string) \<Rightarrow> pyval \<Rightarrow> llm_reply \<Rightarrow> nat \<Rightarrow> pydict \<Rightarrow> pyerr + pyval \<times> pyval" where
  "field_entry lower relationships reply idx field =
     ebind (dict_getitem field (PStr ''field_name'')) (\<lambda>name.
     ebind (generate_label_and_explanation lower reply name) (\<lambda>label_explanation.
     ebind (py_get relationships (str_of_nat idx) PNone) (\<lambda>relationship.
     ebind (py_getitem label_explanation (PStr ''label'')) (\<lambda>label.
     ebind (py_getitem label_explanation (PStr ''explanation'')) (\<lambda>explanation.
     ebind (py_lower lower name) (\<lambda>lowered.
       (let entry =
              [(PStr ''label'', label),
               (PStr ''explanation'', explanation),
               (PStr ''type'', dict_get field ''field_type'' (PStr ''text'')),
               (PStr ''required'', dict_get field ''required'' (PBool False)),
               (PStr ''placeholder'', PStr (''Enter your '' @ lowered)),
               (PStr ''_metadata'', PDict (field_metadata name idx field relationship))];
            entry1 =
              (if py_truthy (dict_get field ''options'' PNone)
               then dict_setitem entry (PStr ''options'') (dict_get field ''options'' PNone)
               else entry);
            entry2 =
              (if py_truthy (dict_get field ''max_length'' PNone)
               then dict_setitem entry1 (PStr ''max_length'') (dict_get field ''max_length'' PNone)
               else entry1)
        in Inr (name, PDict entry2))))))))"

text \<open>
  The field loop; \<open>label_llm idx\<close> is the outcome of the label request for the
  field at position \<open>idx\<close>.
\<close>

fun fields_loop ::
  "(string \<Rightarrow> string) \<Rightarrow> pyval \<Rightarrow> (nat \<Rightarrow> llm_reply) \<Rightarrow> nat \<Rightarrow> pydict list \<Rightarrow> pydict
     \<Rightarrow> pyerr + pydict" where
  "fields_loop lower relationships label_llm idx [] output = Inr output"
| "fields_loop lower relationships label_llm idx (field # rest) output =
     ebind (field_entry lower relationships (label_llm idx) idx field) (\<lambda>(field_key, entry).
     ebind (py_setitem output field_key entry) (\<lambda>output'.
       fields_loop lower relationships label_llm (Suc idx) rest output'))"

definition generate_conditional_logic ::
  "(string \<Rightarrow> string) \<Rightarrow> llm_reply \<Rightarrow> (nat \<Rightarrow> llm_reply) \<Rightarrow> pydict list \<Rightarrow> pyerr + pydict" where
  "generate_conditional_logic lower reply label_llm fields =
     ebind (cond_summary fields) (\<lambda>field_summary.
     ebind (case reply of
              CallFailed \<Rightarrow> Inl RequestFailed
            | NotJSON \<Rightarrow> Inr fallback_logic
            | Parsed v \<Rightarrow> Inr v) (\<lambda>conditional_logic.
     ebind (py_get conditional_logic ''parent_questions'' (PList [])) (\<lambda>pqs.
     ebind (py_iter pqs) (\<lambda>parent_questions.
     ebind (parents_loop parent_questions []) (\<lambda>output.
     ebind (py_get conditional_logic ''field_relationships'' (PDict [])) (\<lambda>relationships.
       fields_loop lower relationships label_llm 0 fields output))))))"

section \<open>The pipeline and the command line\<close>

text \<open>The outcomes of all requests of one run, stage by stage.\<close>

datatype llm_replies =
  Replies (dedup_reply: "nat \<Rightarrow> llm_reply") (group_reply: llm_reply)
          (logic_reply: llm_reply) (label_reply: "nat \<Rightarrow> llm_reply")

definition process_fields ::
  "(string \<Rightarrow> string) \<Rightarrow> llm_replies \<Rightarrow> pydict list \<Rightarrow> int \<Rightarrow> pyerr + pydict" where
  "process_fields lower orc fields batch_size =
     ebind (deduplicate_fields (dedup_reply orc) fields batch_size) (\<lambda>deduplicated_fields.
     ebind (group_fields (group_reply orc) deduplicated_fields) (\<lambda>grouped_fields.
       generate_conditional_logic lower (logic_reply orc) (label_reply orc) grouped_fields))"

text \<open>
  The count of parent questions \<^verbatim>\<open>main\<close> prints in its summary:
  the entries \<open>v\<close> with a true \<^verbatim>\<open>v.get("_metadata", {}).get("is_parent_question")\<close>.
\<close>

definition is_parent_question :: "pyval \<Rightarrow> pyerr + bool" where
  "is_parent_question v =
     ebind (py_get v ''_metadata'' (PDict [])) (\<lambda>m.
     ebind (py_get m ''is_parent_question'' PNone) (\<lambda>flag.
       Inr (py_truthy flag)))"

definition parent_count :: "pydict \<Rightarrow> pyerr + nat" where
  "parent_count combined_forms =
     ebind (emap is_parent_question (map snd combined_forms)) (\<lambda>flags.
       Inr (length (filter id flags)))"

text \<open>
  \<^verbatim>\<open>FieldProcessor.__init__\<close>: the key is the argument or, when that is empty
  or absent, the environment's; a run without a key raises \<^verbatim>\<open>ValueError\<close>.
\<close>

definition init_processor :: "string option \<Rightarrow> string option \<Rightarrow> pyerr + string" where
  "init_processor api_key env_key =
     (let key = (case api_key of Some k \<Rightarrow> (if k \<noteq> [] then Some k else env_key) | None \<Rightarrow> env_key)
      in case key of
           None \<Rightarrow> Inl ValueError
         | Some k \<Rightarrow> (if k = [] then Inl ValueError else Inr k))"

text \<open>The parsed command line, as far as \<^verbatim>\<open>main\<close> reads it after loading the paths.\<close>

datatype args =
  Args (output_file: string) (api_key: "string option") (batch_size: int) (extract_only: bool)

text \<open>
  What a run of \<^verbatim>\<open>main\<close> finds outside the program, once the arguments are
  parsed and \<^verbatim>\<open>load_pdf_paths\<close> has returned its valid paths: the result of
  \<^verbatim>\<open>extract_acroforms\<close> on them, the key in the environment, the LLM's answers
  and whether a path can be opened for writing.
\<close>

datatype world =
  World (extraction: "pyerr + pydict list") (env_key: "string option")
        (replies: llm_replies) (writable: "string \<Rightarrow> bool")

text \<open>
  \<^verbatim>\<open>main\<close> from the extraction on. The result is the exit status of the process
  and the files written, each with the value \<^verbatim>\<open>json.dump\<close> serialised into it.
  An exception that escapes \<^verbatim>\<open>main\<close> ends the process with status 1. The
  summary printed after the output is saved changes neither.
\<close>

definition main :: "(string \<Rightarrow> string) \<Rightarrow> world \<Rightarrow> args \<Rightarrow> nat \<times> (string \<times> pyval) list" where
  "main lower w a =
     (case extraction w of
        Inl e \<Rightarrow> (1, [])
      | Inr extracted_fields \<Rightarrow>
          if extracted_fields = [] then (0, [])
          else if extract_only a then
            (let raw_output =
               PDict [(PStr ''total_fields'', PInt (int (length extracted_fields))),
                      (PStr ''fields'', PList (map PDict extracted_fields))]
             in if writable w (output_file a) then (0, [(output_file a, raw_output)]) else (1, []))
          else
            (case ebind (init_processor (api_key a) (env_key w)) (\<lambda>key.
                    process_fields lower (replies w) extracted_fields (batch_size a)) of
               Inl e \<Rightarrow> (1, [])
             | Inr combined_forms \<Rightarrow>
                 if writable w (output_file a) then (0, [(output_file a, PDict combined_forms)])
                 else (1, [])))"

section \<open>Field types of the extractor\<close>

text \<open>
  \<^verbatim>\<open>_get_field_type\<close> reads objects of the PDF library, which are no JSON
  values: \<open>'v\<close> is their type and \<open>str_of\<close> is Python's \<^verbatim>\<open>str\<close> on them. The
  field information is \<open>None\<close> when it is no dictionary.
\<close>

definition type_mapping :: "(string \<times> string) list" where
  "type_mapping =
     [(''/Tx'', ''text''), (''/Btn'', ''button''), (''/Ch'', ''choice''), (''/Sig'', ''signature'')]"

definition get_field_type :: "('v \<Rightarrow> string) \<Rightarrow> (string \<times> 'v) list option \<Rightarrow> string" where
  "get_field_type str_of field_info =
     (case field_info of
        None \<Rightarrow> ''text''
      | Some d \<Rightarrow>
          (let field_type = (case map_of d ''/FT'' of None \<Rightarrow> [] | Some v \<Rightarrow> str_of v)
           in case map_of type_mapping field_type of None \<Rightarrow> ''text'' | Some t \<Rightarrow> t))"

section \<open>Vocabulary of the theorems\<close>

text \<open>\<^verbatim>\<open>k in d\<close>, and: \<open>d\<close> has a string under \<open>k\<close>.\<close>

definition has_key :: "pydict \<Rightarrow> string \<Rightarrow> bool" where
  "has_key d k = (dict_find d (PStr k) \<noteq> None)"

definition str_key :: "pydict \<Rightarrow> string \<Rightarrow> bool" where
  "str_key d k = (case dict_find d (PStr k) of Some (PStr s) \<Rightarrow> True | _ \<Rightarrow> False)"

text \<open>
  The batches of \<^verbatim>\<open>_deduplicate_fields\<close>: their number for \<open>n\<close> fields, and the
  \<open>k\<close>-th of them, \<^verbatim>\<open>fields[k * bs : k * bs + bs]\<close>.
\<close>

definition batch_count :: "nat \<Rightarrow> nat \<Rightarrow> nat" where
  "batch_count n bs = (n + bs - 1) div bs"

definition batch :: "'a list \<Rightarrow> nat \<Rightarrow> nat \<Rightarrow> 'a list" where
  "batch xs bs k = take bs (drop (k * bs) xs)"

text \<open>
  The subscripts a sequence of length \<open>n\<close> accepts, and the position each
  selects.
\<close>

definition index_pos :: "nat \<Rightarrow> int \<Rightarrow> nat" where
  "index_pos n i = nat (if i < 0 then i + int n else i)"

definition in_range :: "nat \<Rightarrow> int \<Rightarrow> bool" where
  "in_range n i = (- int n \<le> i \<and> i < int n)"

text \<open>
  A group of a deduplication answer, as the merge loop reads it: its canonical
  name \<open>c\<close> and its list \<open>ixs\<close> of integer indices.
\<close>

definition dedup_group :: "pyval \<Rightarrow> pyval \<Rightarrow> int list \<Rightarrow> bool" where
  "dedup_group g c ixs =
     (py_getitem g (PStr ''canonical_name'') = Inr c
      \<and> py_getitem g (PStr ''field_indices'') = Inr (PList (map PInt ixs)))"

text \<open>
  What the merge makes of a group with canonical name \<open>c\<close> and indices
  \<open>ixs\<close>: the record \<open>m\<close> is the record at the first index, but for its
  \<^verbatim>\<open>field_name\<close>, which is \<open>c\<close>, and its \<^verbatim>\<open>sources\<close>, a duplicate-free list of
  the \<^verbatim>\<open>source_pdf\<close> values of the records at the indices.
\<close>

definition merged_record :: "pydict list \<Rightarrow> pyval \<Rightarrow> int list \<Rightarrow> pydict \<Rightarrow> bool" where
  "merged_record fields c ixs m =
     (let n = length fields; base = fields ! index_pos n (hd ixs) in
        dict_find m (PStr ''field_name'') = Some c
      \<and> dict_find m (PStr ''source_pdf'') = dict_find base (PStr ''source_pdf'')
      \<and> (\<exists>srcs. dict_find m (PStr ''sources'') = Some (PList srcs) \<and> distinct srcs
             \<and> set srcs = (\<lambda>i. dict_get (fields ! index_pos n i) ''source_pdf'' PNone) ` set ixs)
      \<and> (\<forall>k. \<not> key_eq k (PStr ''field_name'') \<and> \<not> key_eq k (PStr ''sources'')
             \<longrightarrow> dict_find m k = dict_find base k))"

text \<open>
  A group of a grouping answer, as the loop reads it: its list \<open>ixs\<close> of integer
  indices. \<open>tagged fields group_id i\<close> is the copy of the record subscript \<open>i\<close>
  selects, with \<^verbatim>\<open>_group_id\<close> set.
\<close>

definition grouping_group :: "pyval \<Rightarrow> int list \<Rightarrow> bool" where
  "grouping_group g ixs = (py_getitem g (PStr ''field_indices'') = Inr (PList (map PInt ixs)))"

definition tagged :: "pydict list \<Rightarrow> nat \<Rightarrow> int \<Rightarrow> pydict" where
  "tagged fields group_id i =
     dict_setitem (fields ! index_pos (length fields) i) (PStr ''_group_id'') (PInt (int group_id))"

text \<open>
  A label request whose outcome lets the field loop go on: it failed (and the
  template is used), or its answer has a \<^verbatim>\<open>label\<close> and an \<^verbatim>\<open>explanation\<close>.
\<close>

definition label_ok :: "llm_reply \<Rightarrow> bool" where
  "label_ok r =
     (case r of
        Parsed v \<Rightarrow> \<not> isl (py_getitem v (PStr ''label'')) \<and> \<not> isl (py_getitem v (PStr ''explanation''))
      | _ \<Rightarrow> True)"

text \<open>
  A parent question the loop can store: a dictionary with a hashable
  \<^verbatim>\<open>question_id\<close>, a \<^verbatim>\<open>label\<close> and a \<^verbatim>\<open>type\<close>.
\<close>

definition parent_question_ok :: "pyval \<Rightarrow> bool" where
  "parent_question_ok q =
     (case q of
        PDict d \<Rightarrow> has_key d ''question_id'' \<and> hashable (dict_get d ''question_id'' PNone)
                   \<and> has_key d ''label'' \<and> has_key d ''type''
      | _ \<Rightarrow> False)"

text \<open>
  An entry without conditional gating: its \<^verbatim>\<open>_metadata\<close> has the key \<^verbatim>\<open>parent\<close>
  with the value \<^verbatim>\<open>None\<close> and has no key \<^verbatim>\<open>parent_condition\<close>.
\<close>

definition unconditional :: "pyval \<Rightarrow> bool" where
  "unconditional e =
     (case e of
        PDict ed \<Rightarrow>
          (case dict_find ed (PStr ''_metadata'') of
             Some (PDict md) \<Rightarrow>
               dict_find md (PStr ''parent'') = Some PNone
               \<and> dict_find md (PStr ''parent_condition'') = None
           | _ \<Rightarrow> False)
      | _ \<Rightarrow> False)"

section \<open>Example inputs\<close>

text \<open>
  The example runs are over ASCII text. There \<^verbatim>\<open>str.lower\<close> turns the letters
  \<^verbatim>\<open>A\<close> to \<^verbatim>\<open>Z\<close> into \<^verbatim>\<open>a\<close> to \<^verbatim>\<open>z\<close> and leaves every other character as it is.
\<close>

definition char_lower :: "char \<Rightarrow> char" where
  "char_lower c =
     (case map_of (zip ''ABCDEFGHIJKLMNOPQRSTUVWXYZ'' ''abcdefghijklmnopqrstuvwxyz'') c of
        None \<Rightarrow> c
      | Some l \<Rightarrow> l)"

definition ascii_lower :: "string \<Rightarrow> string" where
  "ascii_lower s = map char_lower s"

text \<open>An LLM none of whose answers decodes.\<close>

definition undecodable :: llm_replies where
  "undecodable = Replies (\<lambda>n. NotJSON) NotJSON NotJSON (\<lambda>n. NotJSON)"

text \<open>A run in extract-only mode over PDFs without a single form field.\<close>

definition no_field_world :: world where
  "no_field_world = World (Inr []) None undecodable (\<lambda>p. True)"

definition extract_only_args :: args where
  "extract_only_args = Args ''fields.json'' None 50 True"

definition full_args :: args where
  "full_args = Args ''combined_forms.json'' None 50 False"

definition name_field :: pydict where
  "name_field = [(PStr ''field_name'', PStr ''Name''), (PStr ''source_pdf'', PStr ''a.pdf'')]"

definition full_name_field :: pydict where
  "full_name_field = [(PStr ''field_name'', PStr ''Full Name''), (PStr ''source_pdf'', PStr ''b.pdf'')]"

definition birth_field :: pydict where
  "birth_field = [(PStr ''field_name'', PStr ''DOB''), (PStr ''source_pdf'', PStr ''b.pdf''),
                  (PStr ''field_type'', PStr ''text'')]"

definition three_fields :: "pydict list" where
  "three_fields = [name_field, full_name_field, birth_field]"

definition full_name_group :: pyval where
  "full_name_group =
     PDict [(PStr ''canonical_name'', PStr ''Full Name''),
            (PStr ''field_indices'', PList [PInt 0, PInt 1]),
            (PStr ''reasoning'', PStr ''both are the name of the applicant'')]"

definition full_name_merged :: pydict where
  "full_name_merged =
     [(PStr ''field_name'', PStr ''Full Name''), (PStr ''source_pdf'', PStr ''a.pdf''),
      (PStr ''sources'', PList [PStr ''a.pdf'', PStr ''b.pdf''])]"

definition three_groups :: "pyval list" where
  "three_groups =
     [PDict [(PStr ''canonical_name'', PStr ''Full Name''),
             (PStr ''field_indices'', PList [PInt 1, PInt 0, PInt 1])],
      PDict [(PStr ''canonical_name'', PStr ''Unused''),
             (PStr ''field_indices'', PList [])],
      PDict [(PStr ''canonical_name'', PStr ''Date of Birth''),
             (PStr ''field_indices'', PList [PInt (- 1)])]]"

definition second_undecodable :: "nat \<Rightarrow> llm_reply" where
  "second_undecodable n = (if n = 0 then Parsed (PList [full_name_group]) else NotJSON)"

definition stray_group :: pyval where
  "stray_group =
     PDict [(PStr ''canonical_name'', PStr ''Name''), (PStr ''field_indices'', PList [PInt 3])]"

definition stray_replies :: llm_replies where
  "stray_replies = Replies (\<lambda>n. Parsed (PList [stray_group])) NotJSON NotJSON (\<lambda>n. NotJSON)"

definition stray_world :: world where
  "stray_world = World (Inr [name_field]) (Some ''key'') stray_replies (\<lambda>p. True)"

definition overlapping_groups :: "pyval list" where
  "overlapping_groups =
     [PDict [(PStr ''group_name'', PStr ''name''),
             (PStr ''field_indices'', PList [PInt 0, PInt 0, PInt 7]),
             (PStr ''description'', PStr ''the name'')],
      PDict [(PStr ''group_name'', PStr ''birth''),
             (PStr ''field_indices'', PList [PInt (- 1), PInt 0]),
             (PStr ''description'', PStr ''the date of birth'')]]"

definition below_group :: pyval where
  "below_group =
     PDict [(PStr ''group_name'', PStr ''name''),
            (PStr ''field_indices'', PList [PInt (- 2)]),
            (PStr ''description'', PStr ''the name'')]"

definition first_label_only :: "nat \<Rightarrow> llm_reply" where
  "first_label_only n =
     (if n = 0
      then Parsed (PDict [(PStr ''label'', PStr ''What is your full name?''),
                          (PStr ''explanation'', PStr ''Enter your complete legal name'')])
      else CallFailed)"

text \<open>A label request that is always answered with an empty object.\<close>

definition empty_labels :: "nat \<Rightarrow> llm_reply" where
  "empty_labels n = Parsed (PDict [])"

definition name_metadata :: pydict where
  "name_metadata =
     [(PStr ''field_name'', PStr ''Name''),
      (PStr ''source_pdf'', PList [PStr ''a.pdf'']),
      (PStr ''order_index'', PInt 0),
      (PStr ''parent'', PNone),
      (PStr ''position'', PNone)]"

definition name_entry :: pydict where
  "name_entry =
     [(PStr ''label'', PStr ''What is your name?''),
      (PStr ''explanation'', PStr ''Enter your name''),
      (PStr ''type'', PStr ''text''),
      (PStr ''required'', PBool False),
      (PStr ''placeholder'', PStr ''Enter your name''),
      (PStr ''_metadata'', PDict name_metadata)]"

definition other_name_field :: pydict where
  "other_name_field =
     [(PStr ''field_name'', PStr ''Name''), (PStr ''source_pdf'', PStr ''c.pdf''),
      (PStr ''_group_id'', PInt 4), (PStr ''max_length'', PInt 40)]"

definition colliding_questions :: "pyval list" where
  "colliding_questions =
     [PDict [(PStr ''question_id'', PStr ''Name''),
             (PStr ''label'', PStr ''Do you have a name?''),
             (PStr ''type'', PStr ''boolean'')],
      PDict [(PStr ''question_id'', PStr ''has_spouse''),
             (PStr ''label'', PStr ''Are you married?''),
             (PStr ''type'', PStr ''boolean'')]]"

definition spouse_relationships :: pydict where
  "spouse_relationships =
     [(PStr ''1'',
       PDict [(PStr ''parent_id'', PStr ''has_spouse''),
              (PStr ''condition'',
               PDict [(PStr ''operator'', PStr ''equals''), (PStr ''value'', PBool True)])])]"

definition colliding_logic :: pydict where
  "colliding_logic =
     [(PStr ''parent_questions'', PList colliding_questions),
      (PStr ''field_relationships'', PDict spouse_relationships)]"

definition other_name_entry :: pyval where
  "other_name_entry =
     PDict [(PStr ''label'', PStr ''What is your name?''),
            (PStr ''explanation'', PStr ''Enter your name''),
            (PStr ''type'', PStr ''text''),
            (PStr ''required'', PBool False),
            (PStr ''placeholder'', PStr ''Enter your name''),
            (PStr ''_metadata'',
             PDict [(PStr ''field_name'', PStr ''Name''),
                    (PStr ''source_pdf'', PList [PStr ''c.pdf'']),
                    (PStr ''order_index'', PInt 4),
                    (PStr ''parent'', PStr ''has_spouse''),
                    (PStr ''position'', PNone),
                    (PStr ''parent_condition'',
                     PDict [(PStr ''operator'', PStr ''equals''),
                            (PStr ''value'', PBool True)])]),
            (PStr ''max_length'', PInt 40)]"

definition spouse_entry :: pyval where
  "spouse_entry =
     PDict [(PStr ''label'', PStr ''Are you married?''),
            (PStr ''type'', PStr ''boolean''),
            (PStr ''required'', PBool False),
            (PStr ''options'', PNone),
            (PStr ''_metadata'',
             PDict [(PStr ''is_parent_question'', PBool True),
                    (PStr ''generated'', PBool True)])]"

section \<open>Basic facts\<close>

lemma ebind_Inl [simp]: "ebind (Inl e) f = Inl e"
  by (simp add: ebind_def)

lemma ebind_Inr [simp]: "ebind (Inr x) f = f x"
  by (simp add: ebind_def)

lemma ebind_eq_Inr: "ebind m f = Inr y \<longleftrightarrow> (\<exists>x. m = Inr x \<and> f x = Inr y)"
  by (cases m) simp_all

text \<open>An answer in a fence, and when an answer counts as not decodable.\<close>

lemma clean_response_fenced:
  "clean_response (replicate 3 (CHR 0x60) @ ''json'' @ [CHR 0x0A] @ ''[1, 2]'' @ [CHR 0x0A]
                     @ replicate 3 (CHR 0x60) @ [CHR 0x0A]) = ''[1, 2]''"
  by code_simp

lemma decode_NotJSON:
  "decode loads response = NotJSON \<longleftrightarrow>
     (\<exists>text. response = Some text \<and> loads (clean_response text) = None)"
  by (auto simp: decode_def split: option.splits)

lemma emap_all_Inr:
  "(\<And>x. x \<in> set xs \<Longrightarrow> f x = Inr (g x)) \<Longrightarrow> emap f xs = Inr (map g xs)"
  by (induction xs) simp_all

lemma emap_ok:
  "(\<And>x. x \<in> set xs \<Longrightarrow> \<exists>y. f x = Inr y) \<Longrightarrow> \<exists>ys. emap f xs = Inr ys"
proof (induction xs)
  case Nil
  show ?case by simp
next
  case (Cons x xs)
  from Cons.prems obtain y where "f x = Inr y" by force
  moreover from Cons obtain ys where "emap f xs = Inr ys" by force
  ultimately show ?case by simp
qed

lemma key_eq_refl [simp]: "key_eq k k"
  by (simp add: key_eq_def)

lemma key_eq_PStr [simp]: "key_eq (PStr a) (PStr b) \<longleftrightarrow> a = b"
  by (simp add: key_eq_def)

lemma key_eq_PStr_left: "key_eq (PStr a) k \<longleftrightarrow> k = PStr a"
  by (cases k) (auto simp: key_eq_def)

lemma dict_find_setitem:
  "dict_find (dict_setitem d k v) k' = (if key_eq k k' then Some v else dict_find d k')"
  by (induction d) (auto simp: key_eq_def)

lemma dict_setitem_keys:
  "map (key_norm \<circ> fst) (dict_setitem d k v) =
     (if key_norm k \<in> set (map (key_norm \<circ> fst) d) then map (key_norm \<circ> fst) d
      else map (key_norm \<circ> fst) d @ [key_norm k])"
proof (induction d)
  case Nil
  show ?case by simp
next
  case (Cons p d)
  obtain k' v' where p: "p = (k', v')" by (cases p)
  show ?case
  proof (cases "key_eq k' k")
    case True
    then show ?thesis by (simp add: p key_eq_def)
  next
    case False
    with Cons show ?thesis by (simp add: p key_eq_def)
  qed
qed

lemma dict_setitem_distinct:
  "distinct (map (key_norm \<circ> fst) d) \<Longrightarrow> distinct (map (key_norm \<circ> fst) (dict_setitem d k v))"
  by (simp add: dict_setitem_keys)

lemma dict_setitem_values:
  "(k', v') \<in> set (dict_setitem d k v) \<Longrightarrow> v' = v \<or> (k', v') \<in> set d"
  by (induction d) (auto split: if_splits)

lemma dict_setitem_fst:
  "\<exists>new. map fst (dict_setitem d k v) = map fst d @ new"
  by (induction d) auto

lemma str_key_has_key: "str_key d k \<Longrightarrow> has_key d k"
  by (auto simp: str_key_def has_key_def split: option.splits)

lemma str_key_getitem:
  "str_key d k \<Longrightarrow> \<exists>s. dict_getitem d (PStr k) = Inr (PStr s) \<and> dict_get d k dflt = PStr s"
  by (auto simp: str_key_def dict_getitem_def dict_get_def split: option.splits pyval.splits)

lemma list_getitem_in_range:
  "in_range (length xs) i \<Longrightarrow> list_getitem xs (PInt i) = Inr (xs ! index_pos (length xs) i)"
  by (auto simp: list_getitem_def py_index_def in_range_def index_pos_def Let_def)

lemma list_getitem_out_of_range:
  "\<not> in_range (length xs) i \<Longrightarrow> list_getitem xs (PInt i) = Inl IndexError"
  by (auto simp: list_getitem_def py_index_def in_range_def Let_def)

lemma index_pos_less: "in_range n i \<Longrightarrow> index_pos n i < n"
  by (auto simp: in_range_def index_pos_def)

section \<open>Label fallback\<close>

text \<open>
  C7. For every field name, a label request that fails, be it with an
  exception of the request or with an answer that does not decode, yields the
  label "What is your <name in lower case>?" and the explanation
  "Enter your <name in lower case>", the lower case being that of Python's
  \<^verbatim>\<open>str.lower\<close>.
\<close>

theorem label_fallback:
  "reply = CallFailed \<or> reply = NotJSON \<Longrightarrow>
   generate_label_and_explanation lower reply (PStr field_name) =
     Inr (PDict [(PStr ''label'', PStr (''What is your '' @ lower field_name @ ''?'')),
                 (PStr ''explanation'', PStr (''Enter your '' @ lower field_name))])"
  by (auto simp: generate_label_and_explanation_def)

lemma ascii_lower_alphabet:
  "ascii_lower ''ABCDEFGHIJKLMNOPQRSTUVWXYZ abcdefghijklmnopqrstuvwxyz 0123456789 _-/.[]''
     = ''abcdefghijklmnopqrstuvwxyz abcdefghijklmnopqrstuvwxyz 0123456789 _-/.[]''"
  by code_simp

theorem label_fallback_witness:
  "generate_label_and_explanation ascii_lower CallFailed (PStr ''Date of Birth'') =
     Inr (PDict [(PStr ''label'', PStr ''What is your date of birth?''),
                 (PStr ''explanation'', PStr ''Enter your date of birth'')])
   \<and> generate_label_and_explanation ascii_lower NotJSON (PStr ''DOB'') =
     Inr (PDict [(PStr ''label'', PStr ''What is your dob?''),
                 (PStr ''explanation'', PStr ''Enter your dob'')])"
proof -
  have birth: "ascii_lower ''Date of Birth'' = ''date of birth''"
    by code_simp
  have dob: "ascii_lower ''DOB'' = ''dob''"
    by code_simp
  have failed: "CallFailed = CallFailed \<or> CallFailed = NotJSON"
    by simp
  have undecoded: "NotJSON = CallFailed \<or> NotJSON = NotJSON"
    by simp
  from label_fallback [OF failed, of ascii_lower "''Date of Birth''"]
       label_fallback [OF undecoded, of ascii_lower "''DOB''"]
  show ?thesis by (simp add: birth dob)
qed

section \<open>Field type mapping\<close>

lemma map_of_type_mapping:
  "map_of type_mapping c =
     (if c = ''/Tx'' then Some ''text'' else if c = ''/Btn'' then Some ''button''
      else if c = ''/Ch'' then Some ''choice'' else if c = ''/Sig'' then Some ''signature''
      else None)"
  by (simp add: type_mapping_def)

text \<open>
  C8. The type mapping is total: whatever the field information, the type is
  one of text, button, choice and signature. Field information that is no
  dictionary, or has no \<^verbatim>\<open>/FT\<close> entry, gives text; otherwise the code
  \<^verbatim>\<open>/Tx\<close> gives text, \<^verbatim>\<open>/Btn\<close> button, \<^verbatim>\<open>/Ch\<close> choice, \<^verbatim>\<open>/Sig\<close> signature and
  every other code text.
\<close>

theorem get_field_type_total:
  "get_field_type str_of field_info \<in> {''text'', ''button'', ''choice'', ''signature''}
   \<and> get_field_type str_of None = ''text''
   \<and> (map_of d ''/FT'' = None \<longrightarrow> get_field_type str_of (Some d) = ''text'')
   \<and> (map_of d ''/FT'' = Some v \<longrightarrow>
        get_field_type str_of (Some d) =
          (if str_of v = ''/Tx'' then ''text''
           else if str_of v = ''/Btn'' then ''button''
           else if str_of v = ''/Ch'' then ''choice''
           else if str_of v = ''/Sig'' then ''signature''
           else ''text''))"
  by (auto simp add: get_field_type_def map_of_type_mapping Let_def split: option.splits)

theorem get_field_type_total_witness:
  "get_field_type id (Some [(''/Ff'', ''2''), (''/FT'', ''/Btn'')]) = ''button''
   \<and> get_field_type id (Some [(''/FT'', ''/Ch'')]) = ''choice''
   \<and> get_field_type id (Some [(''/FT'', ''/Sig'')]) = ''signature''
   \<and> get_field_type id (Some [(''/FT'', ''/Tx'')]) = ''text''
   \<and> get_field_type id (Some [(''/FT'', ''/XObject'')]) = ''text''
   \<and> get_field_type id (Some [(''/V'', ''x'')]) = ''text''"
  using get_field_type_total [of id "Some []" "[(''/Ff'', ''2''), (''/FT'', ''/Btn'')]" "''/Btn''"]
        get_field_type_total [of id "Some []" "[(''/FT'', ''/Ch'')]" "''/Ch''"]
        get_field_type_total [of id "Some []" "[(''/FT'', ''/Sig'')]" "''/Sig''"]
        get_field_type_total [of id "Some []" "[(''/FT'', ''/Tx'')]" "''/Tx''"]
        get_field_type_total [of id "Some []" "[(''/FT'', ''/XObject'')]" "''/XObject''"]
        get_field_type_total [of id "Some []" "[(''/V'', ''x'')]" "''x''"]
  by simp

section \<open>Extract-only mode without fields\<close>

text \<open>
  C2, as the spec states it, fails: in extract-only mode over PDFs without
  form fields the run ends with status 0 and has written no file, so the
  output file does not hold the empty extraction.
\<close>

theorem extract_only_no_fields_counterexample:
  "extract_only extract_only_args
   \<and> extraction no_field_world = Inr []
   \<and> writable no_field_world (output_file extract_only_args)
   \<and> main ascii_lower no_field_world extract_only_args = (0, [])
   \<and> snd (main ascii_lower no_field_world extract_only_args) \<noteq>
       [(output_file extract_only_args,
         PDict [(PStr ''total_fields'', PInt 0), (PStr ''fields'', PList [])])]"
  by (simp add: main_def no_field_world_def extract_only_args_def)

text \<open>
  C2, amended. When the extraction finds no field at all, the run ends with
  exit status 0 without writing any file, in extract-only mode as in the
  full mode: the test for an empty extraction comes before the test for the
  mode.
\<close>

theorem main_no_fields:
  "extraction w = Inr [] \<Longrightarrow> main lower w a = (0, [])"
  by (simp add: main_def)

theorem main_no_fields_witness:
  "extraction (World (Inr []) (Some ''key'') undecodable (\<lambda>p. True)) = Inr []
   \<and> main ascii_lower (World (Inr []) (Some ''key'') undecodable (\<lambda>p. True)) (Args ''raw.json'' None 10 True)
       = (0, [])"
  using main_no_fields [of "World (Inr []) (Some ''key'') undecodable (\<lambda>p. True)" ascii_lower
                            "Args ''raw.json'' None 10 True"]
  by simp

text \<open>With at least one field, extract-only mode writes the raw extraction.\<close>

lemma main_extract_only:
  "extraction w = Inr fs \<Longrightarrow> fs \<noteq> [] \<Longrightarrow> extract_only a \<Longrightarrow> writable w (output_file a) \<Longrightarrow>
     main lower w a =
       (0, [(output_file a,
             PDict [(PStr ''total_fields'', PInt (int (length fs))),
                    (PStr ''fields'', PList (map PDict fs))])])"
  by (simp add: main_def)

section \<open>Deduplication: the fallback\<close>

lemma dedup_summary_ok:
  assumes "\<forall>f\<in>set fields. has_key f ''field_name'' \<and> has_key f ''source_pdf''"
  shows "\<exists>s. dedup_summary fields = Inr s"
  unfolding dedup_summary_def
proof (rule emap_ok)
  fix x assume "x \<in> set (enumerate 0 fields)"
  moreover obtain i f where x: "x = (i, f)" by (cases x)
  ultimately have "f \<in> set fields"
    by (auto simp: in_set_enumerate_eq)
  with assms x show "\<exists>y. (case x of (idx, field) \<Rightarrow>
          ebind (dict_getitem field (PStr ''field_name'')) (\<lambda>name.
          ebind (dict_getitem field (PStr ''source_pdf'')) (\<lambda>src.
          Inr (PDict [(PStr ''index'', PInt (int idx)),
                      (PStr ''field_name'', name),
                      (PStr ''source_pdf'', src),
                      (PStr ''type'', dict_get field ''field_type'' (PStr ''text''))])))) = Inr y"
    by (auto simp: has_key_def dict_getitem_def)
qed

lemma deduplicate_batch_NotJSON:
  assumes "\<forall>f\<in>set fields. has_key f ''field_name'' \<and> has_key f ''source_pdf''"
  shows "deduplicate_batch NotJSON fields = Inr fields"
  using dedup_summary_ok [OF assms] by (auto simp: deduplicate_batch_def)

lemma dedup_loop_steps:
  assumes "\<forall>j<length offs.
             deduplicate_batch (llm (call + j)) (take bs (drop (offs ! j) fields)) = Inr (outs j)"
  shows "dedup_loop llm fields bs call offs acc = Inr (acc @ concat (map outs [0 ..< length offs]))"
  using assms
proof (induction offs arbitrary: call acc outs)
  case Nil
  show ?case by simp
next
  case (Cons i rest)
  from Cons.prems have head: "deduplicate_batch (llm call) (take bs (drop i fields)) = Inr (outs 0)"
    by force
  have "\<forall>j<length rest.
          deduplicate_batch (llm (Suc call + j)) (take bs (drop (rest ! j) fields))
            = Inr ((outs \<circ> Suc) j)"
  proof (intro allI impI)
    fix j assume "j < length rest"
    with Cons.prems
    have "deduplicate_batch (llm (call + Suc j)) (take bs (drop ((i # rest) ! Suc j) fields))
            = Inr (outs (Suc j))"
      by (metis Suc_less_eq length_Cons)
    then show "deduplicate_batch (llm (Suc call + j)) (take bs (drop (rest ! j) fields))
            = Inr ((outs \<circ> Suc) j)"
      by simp
  qed
  from Cons.IH [OF this]
  have "dedup_loop llm fields bs (Suc call) rest (acc @ outs 0)
          = Inr ((acc @ outs 0) @ concat (map (outs \<circ> Suc) [0 ..< length rest]))" .
  moreover have "map outs [0 ..< length (i # rest)] = outs 0 # map (outs \<circ> Suc) [0 ..< length rest]"
    by (simp add: map_upt_Suc del: upt_Suc)
  ultimately show ?case using head by simp
qed

lemma deduplicate_fields_batches:
  assumes "0 < bs"
      and "\<forall>j<batch_count (length fields) (nat bs).
             deduplicate_batch (llm j) (batch fields (nat bs) j) = Inr (outs j)"
  shows "deduplicate_fields llm fields bs =
           Inr (concat (map outs [0 ..< batch_count (length fields) (nat bs)]))"
proof (cases "fields = []")
  case True
  from assms(1) have "batch_count 0 (nat bs) = 0"
    by (simp add: batch_count_def)
  with True show ?thesis by (simp add: deduplicate_fields_def)
next
  case False
  let ?offs = "map (\<lambda>j. j * nat bs) [0 ..< batch_count (length fields) (nat bs)]"
  have "\<forall>j<length ?offs.
          deduplicate_batch (llm (0 + j)) (take (nat bs) (drop (?offs ! j) fields)) = Inr (outs j)"
    using assms(2) by (simp add: batch_def)
  from dedup_loop_steps [OF this, of "[]"] False assms(1)
  show ?thesis
    by (simp add: deduplicate_fields_def py_range_step_def batch_count_def)
qed

lemma set_batch: "set (batch xs bs k) \<subseteq> set xs"
  unfolding batch_def by (meson order_trans set_drop_subset set_take_subset)

text \<open>
  C5. When the answer to a deduplication request does not decode, the batch
  comes back as it went in, same records in the same order, for every batch
  of records that have a \<^verbatim>\<open>field_name\<close> and a \<^verbatim>\<open>source_pdf\<close>. The fallback is per
  batch: if the answer for batch \<open>k\<close> does not decode and the other batches
  deduplicate to \<open>outs j\<close>, the stage returns batch \<open>k\<close> unchanged between the
  merged results of the others.
\<close>

theorem dedup_fallback_per_chunk:
  assumes "\<forall>f\<in>set fields. has_key f ''field_name'' \<and> has_key f ''source_pdf''"
      and "0 < bs"
      and "k < batch_count (length fields) (nat bs)"
      and "llm k = NotJSON"
      and "\<forall>j<batch_count (length fields) (nat bs).
             j \<noteq> k \<longrightarrow> deduplicate_batch (llm j) (batch fields (nat bs) j) = Inr (outs j)"
  shows "deduplicate_batch NotJSON fields = Inr fields
       \<and> deduplicate_batch (llm k) (batch fields (nat bs) k) = Inr (batch fields (nat bs) k)
       \<and> deduplicate_fields llm fields bs =
           Inr (concat (map (\<lambda>j. if j = k then batch fields (nat bs) j else outs j)
                            [0 ..< batch_count (length fields) (nat bs)]))"
proof -
  have whole: "deduplicate_batch NotJSON fields = Inr fields"
    using assms(1) by (rule deduplicate_batch_NotJSON)
  have "\<forall>f\<in>set (batch fields (nat bs) k). has_key f ''field_name'' \<and> has_key f ''source_pdf''"
    using assms(1) set_batch [of fields "nat bs" k] by blast
  then have kth: "deduplicate_batch (llm k) (batch fields (nat bs) k) = Inr (batch fields (nat bs) k)"
    using assms(4) by (simp add: deduplicate_batch_NotJSON)
  have "\<forall>j<batch_count (length fields) (nat bs).
          deduplicate_batch (llm j) (batch fields (nat bs) j)
            = Inr (if j = k then batch fields (nat bs) j else outs j)"
    using kth assms(5) by simp
  from deduplicate_fields_batches [OF assms(2) this] whole kth
  show ?thesis by simp
qed

text \<open>The scenario of the spec: two records of one batch, grouped under one name.\<close>

lemma full_name_eval:
  "deduplicate_batch (Parsed (PList [full_name_group])) [name_field, full_name_field]
     = Inr [full_name_merged]"
  by code_simp

theorem dedup_fallback_per_chunk_witness:
  "deduplicate_batch NotJSON three_fields = Inr three_fields
   \<and> deduplicate_batch (second_undecodable 1) [birth_field] = Inr [birth_field]
   \<and> deduplicate_fields second_undecodable three_fields 2 = Inr [full_name_merged, birth_field]"
proof -
  have h1: "\<forall>f\<in>set three_fields. has_key f ''field_name'' \<and> has_key f ''source_pdf''"
    by code_simp
  have h2: "(0::int) < 2"
    by simp
  have n: "batch_count (length three_fields) 2 = 2"
    by code_simp
  have h3: "1 < batch_count (length three_fields) (nat 2)"
    by (simp add: n)
  have h4: "second_undecodable 1 = NotJSON"
    by (simp add: second_undecodable_def)
  have b0: "batch three_fields 2 0 = [name_field, full_name_field]"
    by code_simp
  have b1: "batch three_fields 2 (Suc 0) = [birth_field]"
    by code_simp
  have r0: "second_undecodable 0 = Parsed (PList [full_name_group])"
    by (simp add: second_undecodable_def)
  have h5: "\<forall>j<batch_count (length three_fields) (nat 2).
              j \<noteq> 1 \<longrightarrow>
              deduplicate_batch (second_undecodable j) (batch three_fields (nat 2) j)
                = Inr ((\<lambda>j. [full_name_merged]) j)"
  proof (intro allI impI)
    fix j assume "j < batch_count (length three_fields) (nat 2)" and "j \<noteq> 1"
    then have "j = 0" by (simp add: n)
    then show "deduplicate_batch (second_undecodable j) (batch three_fields (nat 2) j)
                = Inr ((\<lambda>j. [full_name_merged]) j)"
      by (simp add: b0 r0 full_name_eval)
  qed
  have upt: "[0 ..< (2::nat)] = [0, 1]"
    by code_simp
  from dedup_fallback_per_chunk [OF h1 h2 h3 h4 h5] show ?thesis
    by (simp add: n b0 b1 upt)
qed

section \<open>Deduplication: the merge\<close>

text \<open>
  C1, as the spec states it, fails on its own scenario: the merged record
  keeps the \<^verbatim>\<open>source_pdf\<close> of the first listed record, the string
  \<^verbatim>\<open>a.pdf\<close>, and not the set of both documents; that set is stored under the
  key \<^verbatim>\<open>sources\<close>.
\<close>

theorem dedup_source_pdf_counterexample:
  "deduplicate_batch (Parsed (PList [full_name_group])) [name_field, full_name_field]
     = Inr [full_name_merged]
   \<and> dict_find full_name_merged (PStr ''source_pdf'') = Some (PStr ''a.pdf'')
   \<and> dict_find full_name_merged (PStr ''source_pdf'') \<noteq> Some (PList [PStr ''a.pdf'', PStr ''b.pdf''])
   \<and> dict_find full_name_merged (PStr ''source_pdf'') \<noteq> Some (PList [PStr ''b.pdf'', PStr ''a.pdf''])"
  by code_simp

lemma set_add_subset: "set (foldl set_add acc xs) \<subseteq> set acc \<union> set xs"
proof (induction xs arbitrary: acc)
  case Nil
  show ?case by simp
next
  case (Cons x xs)
  have "set (set_add acc x) \<subseteq> insert x (set acc)"
    by (auto simp: set_add_def)
  with Cons [of "set_add acc x"] show ?case by auto
qed

lemma set_add_keys:
  "key_norm ` set (foldl set_add acc xs) = key_norm ` (set acc \<union> set xs)"
proof (induction xs arbitrary: acc)
  case Nil
  show ?case by simp
next
  case (Cons x xs)
  have "key_norm ` set (set_add acc x) = key_norm ` (insert x (set acc))"
  proof (cases "list_ex (\<lambda>y. key_eq y x) acc")
    case True
    then obtain y where "y \<in> set acc" "key_norm y = key_norm x"
      by (auto simp: list_ex_iff key_eq_def)
    then have "key_norm x \<in> key_norm ` set acc" by (metis imageI)
    with True show ?thesis by (auto simp: set_add_def)
  next
    case False
    then show ?thesis by (simp add: set_add_def)
  qed
  with Cons [of "set_add acc x"] show ?case
    by (simp add: image_Un)
qed

lemma set_add_distinct:
  "distinct (map key_norm acc) \<Longrightarrow> distinct (map key_norm (foldl set_add acc xs))"
proof (induction xs arbitrary: acc)
  case Nil
  then show ?case by simp
next
  case (Cons x xs)
  have "distinct (map key_norm (set_add acc x))"
  proof (cases "list_ex (\<lambda>y. key_eq y x) acc")
    case True
    with Cons.prems show ?thesis by (simp add: set_add_def)
  next
    case False
    then have "key_norm x \<notin> key_norm ` set acc"
      by (auto simp: list_ex_iff key_eq_def)
    with False Cons.prems show ?thesis by (simp add: set_add_def)
  qed
  from Cons.IH [OF this] show ?case by simp
qed

lemma py_list_set_strings:
  assumes "\<forall>x\<in>set xs. \<exists>s. x = PStr s"
  shows "\<exists>srcs. py_list_set xs = Inr srcs \<and> distinct srcs \<and> set srcs = set xs"
proof -
  let ?s = "foldl set_add [] xs"
  have hash: "list_all hashable xs"
    using assms by (auto simp: list_all_iff)
  have sub: "set ?s \<subseteq> set xs"
    using set_add_subset [of "[]" xs] by simp
  have keys: "key_norm ` set ?s = key_norm ` set xs"
    using set_add_keys [of "[]" xs] by simp
  have norm: "\<And>x. x \<in> set xs \<Longrightarrow> key_norm x = x"
    using assms by force
  have "set xs \<subseteq> set ?s"
  proof
    fix x assume x: "x \<in> set xs"
    then have "key_norm x \<in> key_norm ` set ?s" using keys by blast
    then obtain y where y: "y \<in> set ?s" and "key_norm y = key_norm x" by auto
    with sub norm x have "y = x" by (metis subsetD)
    with y show "x \<in> set ?s" by simp
  qed
  with sub have "set ?s = set xs" by blast
  moreover have "distinct ?s"
    using set_add_distinct [of "[]" xs] by (simp add: distinct_map)
  ultimately show ?thesis using hash by (simp add: py_list_set_def)
qed

lemma merge_group_empty:
  "dedup_group g c [] \<Longrightarrow> merge_group fields g = Inr None"
  by (simp add: dedup_group_def merge_group_def)

lemma merge_group_merges:
  assumes wf: "\<forall>f\<in>set fields. str_key f ''source_pdf''"
      and g: "dedup_group g c ixs"
      and ne: "ixs \<noteq> []"
      and rng: "\<forall>i\<in>set ixs. in_range (length fields) i"
  shows "\<exists>m. merge_group fields g = Inr (Some m) \<and> merged_record fields c ixs m"
proof -
  let ?n = "length fields"
  let ?src = "\<lambda>i. dict_get (fields ! index_pos ?n i) ''source_pdf'' PNone"
  obtain i0 rest where ixs: "ixs = i0 # rest" using ne by (cases ixs) auto
  let ?base = "fields ! index_pos ?n i0"
  have first: "py_getitem (PList (map PInt ixs)) (PInt 0) = Inr (PInt i0)"
    by (simp add: ixs list_getitem_def py_index_def)
  have base: "list_getitem fields (PInt i0) = Inr ?base"
    using rng by (simp add: ixs list_getitem_in_range)
  have each: "\<And>x. x \<in> set (map PInt ixs) \<Longrightarrow>
          ebind (list_getitem fields x) (\<lambda>f. dict_getitem f (PStr ''source_pdf''))
            = Inr ((\<lambda>v. case v of PInt i \<Rightarrow> ?src i | _ \<Rightarrow> PNone) x)"
  proof -
    fix x assume "x \<in> set (map PInt ixs)"
    then obtain i where x: "x = PInt i" and i: "i \<in> set ixs" by auto
    with rng have r: "in_range ?n i" by blast
    then have "fields ! index_pos ?n i \<in> set fields"
      by (simp add: index_pos_less)
    with wf have "str_key (fields ! index_pos ?n i) ''source_pdf''" by blast
    from str_key_getitem [OF this, of PNone] r x
    show "ebind (list_getitem fields x) (\<lambda>f. dict_getitem f (PStr ''source_pdf''))
            = Inr ((\<lambda>v. case v of PInt i \<Rightarrow> ?src i | _ \<Rightarrow> PNone) x)"
      by (auto simp: list_getitem_in_range)
  qed
  have sources: "emap (\<lambda>idx. ebind (list_getitem fields idx) (\<lambda>f. dict_getitem f (PStr ''source_pdf'')))
                   (map PInt ixs) = Inr (map ?src ixs)"
  proof -
    have "emap (\<lambda>idx. ebind (list_getitem fields idx) (\<lambda>f. dict_getitem f (PStr ''source_pdf'')))
            (map PInt ixs)
          = Inr (map (\<lambda>v. case v of PInt i \<Rightarrow> ?src i | _ \<Rightarrow> PNone) (map PInt ixs))"
      by (rule emap_all_Inr) (rule each)
    then show ?thesis by (simp add: comp_def)
  qed
  have "\<forall>x\<in>set (map ?src ixs). \<exists>s. x = PStr s"
  proof
    fix x assume "x \<in> set (map ?src ixs)"
    then obtain i where x: "x = ?src i" and i: "i \<in> set ixs" by auto
    with rng have "fields ! index_pos ?n i \<in> set fields"
      by (simp add: index_pos_less)
    with wf have "str_key (fields ! index_pos ?n i) ''source_pdf''" by blast
    from str_key_getitem [OF this, of PNone] x show "\<exists>s. x = PStr s" by auto
  qed
  from py_list_set_strings [OF this] obtain srcs
    where srcs: "py_list_set (map ?src ixs) = Inr srcs" "distinct srcs" "set srcs = ?src ` set ixs"
    by auto
  let ?m = "dict_setitem (dict_setitem ?base (PStr ''field_name'') c) (PStr ''sources'') (PList srcs)"
  have "merge_group fields g = Inr (Some ?m)"
    using g first base sources srcs(1)
    by (simp add: merge_group_def dedup_group_def ixs)
  moreover have "merged_record fields c ixs ?m"
    using srcs(2,3)
    by (auto simp: merged_record_def Let_def ixs dict_find_setitem key_eq_PStr_left)
  ultimately show ?thesis by blast
qed

lemma merge_loop_merges:
  assumes wf: "\<forall>f\<in>set fields. str_key f ''source_pdf''"
  shows "list_all2 (\<lambda>g (c, ixs). dedup_group g c ixs) gs cis \<Longrightarrow>
         (\<forall>(c, ixs)\<in>set cis. \<forall>i\<in>set ixs. in_range (length fields) i) \<Longrightarrow>
         \<exists>out. merge_loop fields gs acc = Inr (acc @ out)
             \<and> list_all2 (\<lambda>(c, ixs) m. merged_record fields c ixs m)
                  (filter (\<lambda>(c, ixs). ixs \<noteq> []) cis) out"
proof (induction gs arbitrary: cis acc)
  case Nil
  then show ?case by simp
next
  case (Cons g gs)
  from Cons.prems(1) obtain c ixs cis' where cis: "cis = (c, ixs) # cis'"
    and g: "dedup_group g c ixs"
    and rest: "list_all2 (\<lambda>g (c, ixs). dedup_group g c ixs) gs cis'"
    by (auto simp: list_all2_Cons1)
  from Cons.prems(2) cis have rng: "\<forall>i\<in>set ixs. in_range (length fields) i"
    and rng': "\<forall>(c, ixs)\<in>set cis'. \<forall>i\<in>set ixs. in_range (length fields) i"
    by auto
  show ?case
  proof (cases "ixs = []")
    case True
    with g have "merge_group fields g = Inr None"
      by (simp add: merge_group_empty)
    moreover from Cons.IH [OF rest rng', of acc] obtain out
      where "merge_loop fields gs acc = Inr (acc @ out)"
        and "list_all2 (\<lambda>(c, ixs) m. merged_record fields c ixs m)
               (filter (\<lambda>(c, ixs). ixs \<noteq> []) cis') out"
      by blast
    ultimately show ?thesis using True cis by simp
  next
    case False
    from merge_group_merges [OF wf g False rng] obtain m
      where m: "merge_group fields g = Inr (Some m)" "merged_record fields c ixs m"
      by blast
    from Cons.IH [OF rest rng', of "acc @ [m]"] obtain out
      where "merge_loop fields gs (acc @ [m]) = Inr ((acc @ [m]) @ out)"
        and "list_all2 (\<lambda>(c, ixs) m. merged_record fields c ixs m)
               (filter (\<lambda>(c, ixs). ixs \<noteq> []) cis') out"
      by blast
    with m False cis have "merge_loop fields (g # gs) acc = Inr (acc @ (m # out))
        \<and> list_all2 (\<lambda>(c, ixs) m. merged_record fields c ixs m)
             (filter (\<lambda>(c, ixs). ixs \<noteq> []) cis) (m # out)"
      by simp
    then show ?thesis by blast
  qed
qed

text \<open>
  C1, amended. For every batch of records with a \<^verbatim>\<open>field_name\<close> and a string
  \<^verbatim>\<open>source_pdf\<close>, and every decoded answer that is a list of groups with a
  canonical name and a list of integer indices within the batch (negative
  ones counting from its end), the stage returns, in the order of the answer,
  exactly one merged record for each group with a non-empty index list: the
  record at the group's first index with \<^verbatim>\<open>field_name\<close> set to the canonical
  name, \<^verbatim>\<open>source_pdf\<close> left as it is, and a new entry \<^verbatim>\<open>sources\<close> that lists
  without duplicates the \<^verbatim>\<open>source_pdf\<close> values of the records at the group's
  indices.
\<close>

theorem deduplicate_batch_merge:
  assumes "\<forall>f\<in>set fields. has_key f ''field_name'' \<and> str_key f ''source_pdf''"
      and "list_all2 (\<lambda>g (c, ixs). dedup_group g c ixs) gs cis"
      and "\<forall>(c, ixs)\<in>set cis. \<forall>i\<in>set ixs. in_range (length fields) i"
  shows "\<exists>out. deduplicate_batch (Parsed (PList gs)) fields = Inr out
           \<and> list_all2 (\<lambda>(c, ixs) m. merged_record fields c ixs m)
                (filter (\<lambda>(c, ixs). ixs \<noteq> []) cis) out"
proof -
  from assms(1) have "\<forall>f\<in>set fields. has_key f ''field_name'' \<and> has_key f ''source_pdf''"
    by (auto simp: str_key_has_key)
  from dedup_summary_ok [OF this] obtain s where s: "dedup_summary fields = Inr s" ..
  from assms(1) have "\<forall>f\<in>set fields. str_key f ''source_pdf''" by simp
  from merge_loop_merges [OF this assms(2,3), of "[]"] s
  show ?thesis by (simp add: deduplicate_batch_def)
qed

theorem deduplicate_batch_merge_witness:
  "deduplicate_batch (Parsed (PList three_groups)) three_fields =
     Inr [[(PStr ''field_name'', PStr ''Full Name''), (PStr ''source_pdf'', PStr ''b.pdf''),
           (PStr ''sources'', PList [PStr ''b.pdf'', PStr ''a.pdf''])],
          [(PStr ''field_name'', PStr ''Date of Birth''), (PStr ''source_pdf'', PStr ''b.pdf''),
           (PStr ''field_type'', PStr ''text''), (PStr ''sources'', PList [PStr ''b.pdf''])]]
   \<and> (\<exists>out. deduplicate_batch (Parsed (PList three_groups)) three_fields = Inr out
         \<and> list_all2 (\<lambda>(c, ixs) m. merged_record three_fields c ixs m)
              [(PStr ''Full Name'', [1, 0, 1]), (PStr ''Date of Birth'', [- 1])] out)"
proof -
  have wf: "\<forall>f\<in>set three_fields. has_key f ''field_name'' \<and> str_key f ''source_pdf''"
    by code_simp
  have shape: "list_all2 (\<lambda>g (c, ixs). dedup_group g c ixs) three_groups
                 [(PStr ''Full Name'', [1, 0, 1]), (PStr ''Unused'', []),
                  (PStr ''Date of Birth'', [- 1])]"
    by code_simp
  have rng: "\<forall>(c, ixs)\<in>set [(PStr ''Full Name'', [1, 0, 1]), (PStr ''Unused'', []),
                                 (PStr ''Date of Birth'', [- 1])].
               \<forall>i\<in>set ixs. in_range (length three_fields) i"
    by code_simp
  have run: "deduplicate_batch (Parsed (PList three_groups)) three_fields =
     Inr [[(PStr ''field_name'', PStr ''Full Name''), (PStr ''source_pdf'', PStr ''b.pdf''),
           (PStr ''sources'', PList [PStr ''b.pdf'', PStr ''a.pdf''])],
          [(PStr ''field_name'', PStr ''Date of Birth''), (PStr ''source_pdf'', PStr ''b.pdf''),
           (PStr ''field_type'', PStr ''text''), (PStr ''sources'', PList [PStr ''b.pdf''])]]"
    by code_simp
  from deduplicate_batch_merge [OF wf shape rng] run show ?thesis by simp
qed

section \<open>Deduplication: an index outside the batch\<close>

lemma merge_group_out_of_range:
  assumes "py_getitem g (PStr ''field_indices'') = Inr (PList (PInt i # rest))"
      and "\<not> in_range (length fields) i"
  shows "merge_group fields g = Inl IndexError"
proof -
  have "py_getitem (PList (PInt i # rest)) (PInt 0) = Inr (PInt i)"
    by (simp add: list_getitem_def py_index_def)
  moreover have "list_getitem fields (PInt i) = Inl IndexError"
    using assms(2) by (rule list_getitem_out_of_range)
  ultimately show ?thesis
    using assms(1) by (simp add: merge_group_def)
qed

lemma single_batch:
  assumes "fields \<noteq> []" and "int (length fields) \<le> bs"
  shows "deduplicate_fields llm fields bs = ebind (deduplicate_batch (llm 0) fields) Inr"
proof -
  from assms have pos: "0 < bs" by (cases fields) auto
  have one: "(n + b - 1) div b = 1" if "0 < n" "n \<le> b" for n b :: nat
    using that by (intro div_nat_eqI) auto
  from assms have "0 < length fields" "length fields \<le> nat bs" by auto
  then have "(length fields + nat bs - 1) div nat bs = 1"
    by (rule one)
  with pos assms show ?thesis
    by (simp add: deduplicate_fields_def py_range_step_def ebind_def split: sum.splits)
qed

text \<open>
  C10. Deduplication is not total on answers that decode: when the first
  group of the answer lists first an index outside the batch, the merge
  raises \<^verbatim>\<open>IndexError\<close>. The fallback does not cover it: the batch is not
  returned unmerged, the error leaves \<^verbatim>\<open>process_fields\<close>, and \<^verbatim>\<open>main\<close> ends
  with status 1 without an output file.
\<close>

theorem dedup_index_out_of_range:
  assumes "\<forall>f\<in>set fields. has_key f ''field_name'' \<and> has_key f ''source_pdf''"
      and "py_getitem g (PStr ''field_indices'') = Inr (PList (PInt i # rest))"
      and "int (length fields) \<le> i \<or> i < - int (length fields)"
      and "fields \<noteq> []"
      and "int (length fields) \<le> batch_size a"
      and "dedup_reply (replies w) 0 = Parsed (PList (g # gs))"
      and "extraction w = Inr fields"
      and "\<not> extract_only a"
  shows "deduplicate_batch (Parsed (PList (g # gs))) fields = Inl IndexError
       \<and> deduplicate_fields (dedup_reply (replies w)) fields (batch_size a) = Inl IndexError
       \<and> process_fields lower (replies w) fields (batch_size a) = Inl IndexError
       \<and> main lower w a = (1, [])"
proof -
  from dedup_summary_ok [OF assms(1)] obtain s where s: "dedup_summary fields = Inr s" ..
  from assms(3) have "\<not> in_range (length fields) i"
    by (auto simp: in_range_def)
  from merge_group_out_of_range [OF assms(2) this]
  have batch: "deduplicate_batch (Parsed (PList (g # gs))) fields = Inl IndexError"
    using s by (simp add: deduplicate_batch_def)
  with single_batch [OF assms(4,5), of "dedup_reply (replies w)"] assms(6)
  have all: "deduplicate_fields (dedup_reply (replies w)) fields (batch_size a) = Inl IndexError"
    by simp
  then have run: "process_fields lower (replies w) fields (batch_size a) = Inl IndexError"
    by (simp add: process_fields_def)
  have "main lower w a = (1, [])"
    using assms(4,7,8) run
    by (cases "init_processor (api_key a) (env_key w)") (simp_all add: main_def)
  with batch all run show ?thesis by simp
qed

theorem dedup_index_out_of_range_witness:
  "deduplicate_batch (Parsed (PList [stray_group])) [name_field] = Inl IndexError
   \<and> process_fields ascii_lower (replies stray_world) [name_field] (batch_size full_args) = Inl IndexError
   \<and> main ascii_lower stray_world full_args = (1, [])"
proof -
  have h1: "\<forall>f\<in>set [name_field]. has_key f ''field_name'' \<and> has_key f ''source_pdf''"
    by code_simp
  have h2: "py_getitem stray_group (PStr ''field_indices'') = Inr (PList (PInt 3 # []))"
    by code_simp
  have h3: "int (length [name_field]) \<le> 3 \<or> 3 < - int (length [name_field])"
    by simp
  have h4: "[name_field] \<noteq> []"
    by simp
  have h5: "int (length [name_field]) \<le> batch_size full_args"
    by (simp add: full_args_def)
  have h6: "dedup_reply (replies stray_world) 0 = Parsed (PList (stray_group # []))"
    by (simp add: stray_world_def stray_replies_def)
  have h7: "extraction stray_world = Inr [name_field]"
    by (simp add: stray_world_def)
  have h8: "\<not> extract_only full_args"
    by (simp add: full_args_def)
  from dedup_index_out_of_range [OF h1 h2 h3 h4 h5 h6 h7 h8] show ?thesis by simp
qed

section \<open>Grouping\<close>

lemma group_summary_ok:
  assumes "\<forall>f\<in>set fields. has_key f ''field_name''"
  shows "\<exists>s. group_summary fields = Inr s"
  unfolding group_summary_def
proof (rule emap_ok)
  fix x assume "x \<in> set (enumerate 0 fields)"
  moreover obtain i f where x: "x = (i, f)" by (cases x)
  ultimately have "f \<in> set fields"
    by (auto simp: in_set_enumerate_eq)
  with assms x show "\<exists>y. (case x of (idx, field) \<Rightarrow>
          ebind (dict_getitem field (PStr ''field_name'')) (\<lambda>name.
          Inr (PDict [(PStr ''index'', PInt (int idx)),
                      (PStr ''field_name'', name),
                      (PStr ''type'', dict_get field ''field_type'' (PStr ''text''))]))) = Inr y"
    by (auto simp: has_key_def dict_getitem_def)
qed

lemma tag_loop_ints:
  assumes "\<forall>i\<in>set ixs. - int (length fields) \<le> i"
  shows "tag_loop fields gid (map PInt ixs) acc =
           Inr (acc @ map (tagged fields gid) (filter (\<lambda>i. i < int (length fields)) ixs))"
  using assms
proof (induction ixs arbitrary: acc)
  case Nil
  show ?case by simp
next
  case (Cons i ixs)
  show ?case
  proof (cases "i < int (length fields)")
    case True
    with Cons.prems have "in_range (length fields) i"
      by (simp add: in_range_def)
    then have "list_getitem fields (PInt i) = Inr (fields ! index_pos (length fields) i)"
      by (rule list_getitem_in_range)
    with True Cons show ?thesis
      by (simp add: py_lt_int_def tagged_def)
  next
    case False
    with Cons show ?thesis
      by (simp add: py_lt_int_def)
  qed
qed

lemma group_loop_ints:
  "list_all2 grouping_group gs ixss \<Longrightarrow>
   (\<forall>ixs\<in>set ixss. \<forall>i\<in>set ixs. - int (length fields) \<le> i) \<Longrightarrow>
   group_loop fields gid gs acc =
     Inr (acc @ concat (map (\<lambda>(k, ixs). map (tagged fields k)
                                            (filter (\<lambda>i. i < int (length fields)) ixs))
                            (enumerate gid ixss)))"
proof (induction gs arbitrary: ixss gid acc)
  case Nil
  then show ?case by simp
next
  case (Cons g gs)
  from Cons.prems(1) obtain ixs rest where ixss: "ixss = ixs # rest"
    and g: "grouping_group g ixs" and rest: "list_all2 grouping_group gs rest"
    by (auto simp: list_all2_Cons1)
  from Cons.prems(2) ixss have here: "\<forall>i\<in>set ixs. - int (length fields) \<le> i"
    and there: "\<forall>ixs\<in>set rest. \<forall>i\<in>set ixs. - int (length fields) \<le> i"
    by auto
  from Cons.IH [OF rest there] g tag_loop_ints [OF here] ixss
  show ?case by (simp add: grouping_group_def)
qed

text \<open>
  C9, as stated, fails for an index below \<open>-N\<close>: with one field, the index
  \<open>-2\<close> passes the bound check and then selects no field from the end; the
  stage raises \<^verbatim>\<open>IndexError\<close> and returns nothing.
\<close>

theorem group_index_below_counterexample:
  "py_lt_int (PInt (- 2)) (int (length [name_field])) = Inr True
   \<and> group_fields (Parsed (PList [below_group])) [name_field] = Inl IndexError"
  by code_simp

text \<open>
  C9, amended. For \<open>N\<close> fields with a \<^verbatim>\<open>field_name\<close> and a decoded answer that
  is a list of groups whose \<^verbatim>\<open>field_indices\<close> are lists of integers not below
  \<open>-N\<close>, the stage returns, group by group and index by index, one tagged
  record for each occurrence of an index below \<open>N\<close>: an index of at least \<open>N\<close>
  is skipped, a field no group lists is absent, a field listed several
  times is repeated, and a negative index \<open>i\<close> selects the field at position
  \<open>N + i\<close>. So the output need not have \<open>N\<close> records.
\<close>

theorem group_fields_parsed:
  assumes "\<forall>f\<in>set fields. has_key f ''field_name''"
      and "list_all2 grouping_group gs ixss"
      and "\<forall>ixs\<in>set ixss. \<forall>i\<in>set ixs. - int (length fields) \<le> i"
  shows "group_fields (Parsed (PList gs)) fields =
           Inr (concat (map (\<lambda>(group_id, ixs).
                               map (tagged fields group_id)
                                   (filter (\<lambda>i. i < int (length fields)) ixs))
                            (enumerate 0 ixss)))
       \<and> (\<forall>group_id i. dict_find (tagged fields group_id i) (PStr ''_group_id'')
                          = Some (PInt (int group_id)))"
proof -
  have tag: "\<forall>group_id i. dict_find (tagged fields group_id i) (PStr ''_group_id'')
                            = Some (PInt (int group_id))"
    by (simp add: tagged_def dict_find_setitem)
  have "group_fields (Parsed (PList gs)) fields =
           Inr (concat (map (\<lambda>(group_id, ixs).
                               map (tagged fields group_id)
                                   (filter (\<lambda>i. i < int (length fields)) ixs))
                            (enumerate 0 ixss)))"
  proof (cases "fields = []")
    case True
    have "filter (\<lambda>i. i < int (length fields)) ixs = []" if "ixs \<in> set ixss" for ixs
      using that assms(3) True by (fastforce simp: filter_empty_conv)
    then have "\<forall>p\<in>set (enumerate 0 ixss).
                 (case p of (group_id, ixs) \<Rightarrow>
                    map (tagged fields group_id) (filter (\<lambda>i. i < int (length fields)) ixs)) = []"
      by (auto simp: in_set_enumerate_eq)
    then have "concat (map (\<lambda>(group_id, ixs).
                               map (tagged fields group_id)
                                   (filter (\<lambda>i. i < int (length fields)) ixs))
                            (enumerate 0 ixss)) = []"
      by (simp add: concat_eq_Nil_conv)
    with True show ?thesis by (simp add: group_fields_def)
  next
    case False
    from group_summary_ok [OF assms(1)] obtain s where "group_summary fields = Inr s" ..
    with False group_loop_ints [OF assms(2,3), of 0 "[]"] show ?thesis
      by (simp add: group_fields_def)
  qed
  with tag show ?thesis by simp
qed

theorem group_fields_parsed_witness:
  "group_fields (Parsed (PList overlapping_groups)) three_fields =
     Inr [name_field @ [(PStr ''_group_id'', PInt 0)],
          name_field @ [(PStr ''_group_id'', PInt 0)],
          birth_field @ [(PStr ''_group_id'', PInt 1)],
          name_field @ [(PStr ''_group_id'', PInt 1)]]"
proof -
  have wf: "\<forall>f\<in>set three_fields. has_key f ''field_name''"
    by code_simp
  have shape: "list_all2 grouping_group overlapping_groups [[0, 0, 7], [- 1, 0]]"
    by code_simp
  have rng: "\<forall>ixs\<in>set [[0, 0, 7], [- 1, 0]]. \<forall>i\<in>set ixs. - int (length three_fields) \<le> i"
    by code_simp
  have out: "concat (map (\<lambda>(group_id, ixs).
                            map (tagged three_fields group_id)
                                (filter (\<lambda>i. i < int (length three_fields)) ixs))
                         (enumerate 0 [[0, 0, 7], [- 1, 0]]))
             = [name_field @ [(PStr ''_group_id'', PInt 0)],
                name_field @ [(PStr ''_group_id'', PInt 0)],
                birth_field @ [(PStr ''_group_id'', PInt 1)],
                name_field @ [(PStr ''_group_id'', PInt 1)]]"
    by code_simp
  from group_fields_parsed [OF wf shape rng] show ?thesis
    unfolding out by simp
qed

lemma fallback_groups_shape:
  "list_all2 grouping_group (map mk [0 ..< n]) (map (\<lambda>i. [int i]) [0 ..< n])"
  if "\<And>idx. grouping_group (mk idx) [int idx]"
  using that by (simp add: list_all2_map1 list_all2_map2 list_all2_same)

text \<open>
  C6. When the answer to the grouping request does not decode, the stage
  returns all \<open>N\<close> fields in input order, the field at position \<open>i\<close> tagged with
  \<^verbatim>\<open>_group_id\<close> \<open>i\<close>, so the \<open>N\<close> group ids are pairwise distinct: every field is
  a group of its own.
\<close>

theorem group_fields_fallback:
  assumes "\<forall>f\<in>set fields. has_key f ''field_name''"
  shows "\<exists>out. group_fields NotJSON fields = Inr out
           \<and> length out = length fields
           \<and> (\<forall>i<length fields.
                 out ! i = dict_setitem (fields ! i) (PStr ''_group_id'') (PInt (int i))
                 \<and> dict_find (out ! i) (PStr ''_group_id'') = Some (PInt (int i)))
           \<and> distinct (map (\<lambda>r. dict_find r (PStr ''_group_id'')) out)"
proof -
  let ?n = "length fields"
  let ?out = "map (\<lambda>i. dict_setitem (fields ! i) (PStr ''_group_id'') (PInt (int i))) [0 ..< ?n]"
  have run: "group_fields NotJSON fields = Inr ?out"
  proof (cases "fields = []")
    case True
    then show ?thesis by (simp add: group_fields_def)
  next
    case False
    from group_summary_ok [OF assms] obtain s where s: "group_summary fields = Inr s" ..
    let ?mk = "\<lambda>idx. PDict [(PStr ''group_name'', PStr (''group_'' @ str_of_nat idx)),
                             (PStr ''field_indices'', PList [PInt (int idx)]),
                             (PStr ''description'', PStr [])]"
    have shape: "list_all2 grouping_group (map ?mk [0 ..< ?n]) (map (\<lambda>i. [int i]) [0 ..< ?n])"
      by (rule fallback_groups_shape) (simp add: grouping_group_def dict_getitem_def)
    have rng: "\<forall>ixs\<in>set (map (\<lambda>i. [int i]) [0 ..< ?n]). \<forall>i\<in>set ixs. - int ?n \<le> i"
      by auto
    have "map (\<lambda>(k, ixs). map (tagged fields k) (filter (\<lambda>i. i < int ?n) ixs))
              (enumerate 0 (map (\<lambda>i. [int i]) [0 ..< ?n]))
          = map (\<lambda>i. [dict_setitem (fields ! i) (PStr ''_group_id'') (PInt (int i))]) [0 ..< ?n]"
      unfolding enumerate_map_upt map_map
      by (rule map_cong) (auto simp: tagged_def index_pos_def)
    then have "concat (map (\<lambda>(k, ixs). map (tagged fields k) (filter (\<lambda>i. i < int ?n) ixs))
                      (enumerate 0 (map (\<lambda>i. [int i]) [0 ..< ?n]))) = ?out"
      by (simp add: concat_map_singleton)
    then have "group_loop fields 0 (map ?mk [0 ..< ?n]) [] = Inr ?out"
      using group_loop_ints [OF shape rng, of 0 "[]"] by simp
    with False s show ?thesis
      by (simp add: group_fields_def fallback_groups_def)
  qed
  have ids: "map (\<lambda>r. dict_find r (PStr ''_group_id'')) ?out
               = map (\<lambda>i. Some (PInt (int i))) [0 ..< ?n]"
    by (simp add: dict_find_setitem)
  have "distinct (map (\<lambda>r. dict_find r (PStr ''_group_id'')) ?out)"
    unfolding ids by (simp add: distinct_map inj_on_def)
  with run show ?thesis
    by (simp add: dict_find_setitem)
qed

theorem group_fields_fallback_witness:
  "group_fields NotJSON three_fields =
     Inr [name_field @ [(PStr ''_group_id'', PInt 0)],
          full_name_field @ [(PStr ''_group_id'', PInt 1)],
          birth_field @ [(PStr ''_group_id'', PInt 2)]]
   \<and> (\<exists>out. group_fields NotJSON three_fields = Inr out
         \<and> length out = length three_fields
         \<and> distinct (map (\<lambda>r. dict_find r (PStr ''_group_id'')) out))"
proof -
  have wf: "\<forall>f\<in>set three_fields. has_key f ''field_name''"
    by code_simp
  have run: "group_fields NotJSON three_fields =
     Inr [name_field @ [(PStr ''_group_id'', PInt 0)],
          full_name_field @ [(PStr ''_group_id'', PInt 1)],
          birth_field @ [(PStr ''_group_id'', PInt 2)]]"
    by code_simp
  from group_fields_fallback [OF wf] run show ?thesis by auto
qed

section \<open>Schema assembly\<close>

lemma cond_summary_ok:
  assumes "\<forall>f\<in>set fields. has_key f ''field_name''"
  shows "\<exists>s. cond_summary fields = Inr s"
  unfolding cond_summary_def
proof (rule emap_ok)
  fix x assume "x \<in> set (enumerate 0 fields)"
  moreover obtain i f where x: "x = (i, f)" by (cases x)
  ultimately have "f \<in> set fields"
    by (auto simp: in_set_enumerate_eq)
  with assms x show "\<exists>y. (case x of (idx, field) \<Rightarrow>
          ebind (dict_getitem field (PStr ''field_name'')) (\<lambda>name.
          Inr (PDict [(PStr ''index'', PInt (int idx)), (PStr ''field_name'', name)]))) = Inr y"
    by (auto simp: has_key_def dict_getitem_def)
qed

lemma field_entry_name:
  assumes "field_entry lower rel reply idx f = Inr (n, e)"
  shows "dict_find f (PStr ''field_name'') = Some n \<and> (\<exists>s. n = PStr s)"
proof -
  from assms obtain name lowered where
    name: "dict_getitem f (PStr ''field_name'') = Inr name" and
    low: "py_lower lower name = Inr lowered" and n: "n = name"
    by (auto simp: field_entry_def ebind_eq_Inr Let_def)
  from name have "dict_find f (PStr ''field_name'') = Some name"
    by (auto simp: dict_getitem_def split: option.splits if_splits)
  moreover from low have "\<exists>s. name = PStr s" by (cases name) auto
  ultimately show ?thesis using n by simp
qed

lemma metadata_not_parent:
  "dict_find (field_metadata name idx f relationship) (PStr ''is_parent_question'') = None"
  by (simp add: field_metadata_def Let_def dict_find_setitem split: prod.splits)

lemma field_entry_not_parent:
  assumes "field_entry lower rel reply idx f = Inr (n, e)"
  shows "is_parent_question e = Inr False"
proof -
  from assms obtain ed relationship where e: "e = PDict ed"
    and md: "dict_find ed (PStr ''_metadata'') = Some (PDict (field_metadata n idx f relationship))"
    by (auto simp: field_entry_def ebind_eq_Inr Let_def dict_find_setitem)
  then show ?thesis
    by (simp add: is_parent_question_def dict_get_def metadata_not_parent)
qed

lemma field_entry_unconditional:
  assumes "field_entry lower (PDict []) reply idx f = Inr (n, e)"
  shows "unconditional e"
proof -
  from assms obtain ed where e: "e = PDict ed"
    and md: "dict_find ed (PStr ''_metadata'') = Some (PDict (field_metadata n idx f PNone))"
    by (auto simp: field_entry_def ebind_eq_Inr Let_def dict_find_setitem dict_get_def)
  then show ?thesis
    by (simp add: unconditional_def field_metadata_def parent_of_def)
qed

lemma field_entry_ok:
  assumes "str_key f ''field_name''" and "label_ok reply"
  shows "\<exists>n e. field_entry lower (PDict rel) reply idx f = Inr (n, e)"
proof -
  from str_key_getitem [OF assms(1), of PNone] obtain s
    where s: "dict_getitem f (PStr ''field_name'') = Inr (PStr s)" by auto
  from assms(2) obtain le where le: "generate_label_and_explanation lower reply (PStr s) = Inr le"
    and "\<not> isl (py_getitem le (PStr ''label''))" "\<not> isl (py_getitem le (PStr ''explanation''))"
    by (cases reply)
       (auto simp: label_ok_def generate_label_and_explanation_def dict_getitem_def)
  then obtain l x where "py_getitem le (PStr ''label'') = Inr l"
    "py_getitem le (PStr ''explanation'') = Inr x"
    by (metis isl_def sum.exhaust_sel sum.collapse(2))
  with s le show ?thesis
    by (simp add: field_entry_def Let_def)
qed

lemma fields_loop_step:
  assumes "fields_loop lower rel llm idx (f # rest) out0 = Inr r"
  obtains n e where "field_entry lower rel (llm idx) idx f = Inr (n, e)"
    and "fields_loop lower rel llm (Suc idx) rest (dict_setitem out0 n e) = Inr r"
proof -
  from assms obtain p out1 where p: "field_entry lower rel (llm idx) idx f = Inr p"
    and set: "(case p of (field_key, entry) \<Rightarrow>
                 ebind (py_setitem out0 field_key entry)
                   (\<lambda>output'. fields_loop lower rel llm (Suc idx) rest output')) = Inr r"
    by (auto simp: ebind_eq_Inr)
  obtain n e where ne: "p = (n, e)" by (cases p)
  with set have "hashable n" and "fields_loop lower rel llm (Suc idx) rest (dict_setitem out0 n e) = Inr r"
    by (auto simp: ebind_eq_Inr py_setitem_def split: if_splits)
  with p ne that show thesis by simp
qed

lemma fields_loop_distinct:
  "fields_loop lower rel llm idx fs out0 = Inr r \<Longrightarrow> distinct (map (key_norm \<circ> fst) out0) \<Longrightarrow>
     distinct (map (key_norm \<circ> fst) r)"
proof (induction fs arbitrary: idx out0)
  case Nil
  then show ?case by simp
next
  case (Cons f rest)
  from Cons.prems(1) obtain n e where
    "fields_loop lower rel llm (Suc idx) rest (dict_setitem out0 n e) = Inr r"
    by (rule fields_loop_step)
  then show ?case
    using Cons.IH Cons.prems(2) dict_setitem_distinct by blast
qed

lemma fields_loop_prefix:
  "fields_loop lower rel llm idx fs out0 = Inr r \<Longrightarrow> \<exists>new. map fst r = map fst out0 @ new"
proof (induction fs arbitrary: idx out0)
  case Nil
  then show ?case by simp
next
  case (Cons f rest)
  from Cons.prems obtain n e where
    "fields_loop lower rel llm (Suc idx) rest (dict_setitem out0 n e) = Inr r"
    by (rule fields_loop_step)
  from Cons.IH [OF this] obtain new where "map fst r = map fst (dict_setitem out0 n e) @ new" ..
  moreover obtain new' where "map fst (dict_setitem out0 n e) = map fst out0 @ new'"
    using dict_setitem_fst by blast
  ultimately show ?case by simp
qed

lemma fields_loop_other_keys:
  "fields_loop lower rel llm idx fs out0 = Inr r \<Longrightarrow>
   \<forall>f\<in>set fs. dict_find f (PStr ''field_name'') \<noteq> Some k \<Longrightarrow>
   dict_find r k = dict_find out0 k"
proof (induction fs arbitrary: idx out0)
  case Nil
  then show ?case by simp
next
  case (Cons f rest)
  from Cons.prems(1) obtain n e where
    entry: "field_entry lower rel (llm idx) idx f = Inr (n, e)" and
    loop: "fields_loop lower rel llm (Suc idx) rest (dict_setitem out0 n e) = Inr r"
    by (rule fields_loop_step)
  from field_entry_name [OF entry] obtain s where
    name: "dict_find f (PStr ''field_name'') = Some n" and s: "n = PStr s" by auto
  with Cons.prems(2) have "k \<noteq> PStr s" by auto
  then have "\<not> key_eq n k" by (simp add: s key_eq_PStr_left)
  moreover from Cons.IH [OF loop] Cons.prems(2)
  have "dict_find r k = dict_find (dict_setitem out0 n e) k" by simp
  ultimately show ?case by (simp add: dict_find_setitem)
qed

lemma fields_loop_last_wins:
  "fields_loop lower rel llm idx fs out0 = Inr r \<Longrightarrow> i < length fs \<Longrightarrow>
   \<forall>j<length fs. i < j \<longrightarrow> dict_find (fs ! j) (PStr ''field_name'') \<noteq> dict_find (fs ! i) (PStr ''field_name'') \<Longrightarrow>
   \<exists>n e. field_entry lower rel (llm (idx + i)) (idx + i) (fs ! i) = Inr (n, e) \<and> dict_find r n = Some e"
proof (induction fs arbitrary: idx out0 i)
  case Nil
  then show ?case by simp
next
  case (Cons f rest)
  from Cons.prems(1) obtain n e where
    entry: "field_entry lower rel (llm idx) idx f = Inr (n, e)" and
    loop: "fields_loop lower rel llm (Suc idx) rest (dict_setitem out0 n e) = Inr r"
    by (rule fields_loop_step)
  show ?case
  proof (cases i)
    case 0
    from field_entry_name [OF entry]
    have name: "dict_find f (PStr ''field_name'') = Some n" by simp
    have "\<forall>f'\<in>set rest. dict_find f' (PStr ''field_name'') \<noteq> Some n"
    proof
      fix f' assume "f' \<in> set rest"
      then obtain j where "j < length rest" "rest ! j = f'"
        by (auto simp: in_set_conv_nth)
      with Cons.prems(3) [rule_format, of "Suc j"] 0 name
      show "dict_find f' (PStr ''field_name'') \<noteq> Some n" by auto
    qed
    from fields_loop_other_keys [OF loop this]
    have "dict_find r n = Some e" by (simp add: dict_find_setitem)
    with entry 0 show ?thesis by simp
  next
    case (Suc i')
    with Cons.prems(2) have i': "i' < length rest" by simp
    have "\<forall>j<length rest. i' < j \<longrightarrow>
            dict_find (rest ! j) (PStr ''field_name'') \<noteq> dict_find (rest ! i') (PStr ''field_name'')"
    proof (intro allI impI)
      fix j assume "j < length rest" "i' < j"
      with Cons.prems(3) [rule_format, of "Suc j"] Suc
      show "dict_find (rest ! j) (PStr ''field_name'') \<noteq> dict_find (rest ! i') (PStr ''field_name'')"
        by auto
    qed
    from Cons.IH [OF loop i' this] Suc show ?thesis by simp
  qed
qed

lemma fields_loop_field_keys:
  "fields_loop lower rel llm idx fs out0 = Inr r \<Longrightarrow> f \<in> set fs \<Longrightarrow>
   \<exists>n e. dict_find f (PStr ''field_name'') = Some n \<and> dict_find r n = Some e
        \<and> is_parent_question e = Inr False"
proof (induction fs arbitrary: idx out0 f)
  case Nil
  then show ?case by simp
next
  case (Cons g rest)
  from Cons.prems(1) obtain n e where
    entry: "field_entry lower rel (llm idx) idx g = Inr (n, e)" and
    loop: "fields_loop lower rel llm (Suc idx) rest (dict_setitem out0 n e) = Inr r"
    by (rule fields_loop_step)
  show ?case
  proof (cases "f \<in> set rest")
    case True
    from Cons.IH [OF loop True] show ?thesis .
  next
    case False
    with Cons.prems(2) have fg: "f = g" by simp
    from field_entry_name [OF entry]
    have name: "dict_find g (PStr ''field_name'') = Some n" by simp
    show ?thesis
    proof (cases "\<exists>f'\<in>set rest. dict_find f' (PStr ''field_name'') = Some n")
      case True
      then obtain f' where f': "f' \<in> set rest" "dict_find f' (PStr ''field_name'') = Some n"
        by blast
      from Cons.IH [OF loop f'(1)] f'(2) name fg show ?thesis by auto
    next
      case False
      then have "\<forall>f'\<in>set rest. dict_find f' (PStr ''field_name'') \<noteq> Some n" by blast
      from fields_loop_other_keys [OF loop this]
      have "dict_find r n = Some e" by (simp add: dict_find_setitem)
      with name fg field_entry_not_parent [OF entry] show ?thesis by simp
    qed
  qed
qed

lemma fields_loop_entries:
  "fields_loop lower rel llm idx fs out0 = Inr r \<Longrightarrow> (k, e) \<in> set r \<Longrightarrow>
   (k, e) \<in> set out0
   \<or> (\<exists>i<length fs. \<exists>n. field_entry lower rel (llm (idx + i)) (idx + i) (fs ! i) = Inr (n, e))"
proof (induction fs arbitrary: idx out0)
  case Nil
  then show ?case by simp
next
  case (Cons f rest)
  from Cons.prems(1) obtain n e' where
    entry: "field_entry lower rel (llm idx) idx f = Inr (n, e')" and
    loop: "fields_loop lower rel llm (Suc idx) rest (dict_setitem out0 n e') = Inr r"
    by (rule fields_loop_step)
  from Cons.IH [OF loop Cons.prems(2)]
  consider "(k, e) \<in> set (dict_setitem out0 n e')"
    | i where "i < length rest"
        "\<exists>n. field_entry lower rel (llm (Suc idx + i)) (Suc idx + i) (rest ! i) = Inr (n, e)"
    by blast
  then show ?case
  proof cases
    case 1
    from dict_setitem_values [OF this] entry show ?thesis by auto
  next
    case 2
    then have "Suc i < length (f # rest)"
      "\<exists>n. field_entry lower rel (llm (idx + Suc i)) (idx + Suc i) ((f # rest) ! Suc i) = Inr (n, e)"
      by simp_all
    then show ?thesis by blast
  qed
qed

lemma fields_loop_ok:
  "\<forall>f\<in>set fs. str_key f ''field_name'' \<Longrightarrow> \<forall>i<length fs. label_ok (llm (idx + i)) \<Longrightarrow>
   \<exists>r. fields_loop lower (PDict rel) llm idx fs out0 = Inr r"
proof (induction fs arbitrary: idx out0)
  case Nil
  show ?case by simp
next
  case (Cons f rest)
  from Cons.prems have "str_key f ''field_name''" "label_ok (llm idx)" by auto
  from field_entry_ok [OF this] obtain n e
    where entry: "field_entry lower (PDict rel) (llm idx) idx f = Inr (n, e)" by blast
  from field_entry_name [OF entry] have "hashable n" by auto
  moreover have "\<forall>i<length rest. label_ok (llm (Suc idx + i))"
    using Cons.prems(2) by auto
  with Cons.IH [of "Suc idx" "dict_setitem out0 n e"] Cons.prems(1)
  obtain r where "fields_loop lower (PDict rel) llm (Suc idx) rest (dict_setitem out0 n e) = Inr r"
    by auto
  ultimately show ?case using entry by (simp add: py_setitem_def)
qed

lemma parent_entry_flagged:
  "parent_entry q = Inr e \<Longrightarrow> is_parent_question e = Inr True"
  by (auto simp: parent_entry_def ebind_eq_Inr is_parent_question_def dict_get_def)

lemma parents_loop_step:
  assumes "parents_loop (q # rest) out0 = Inr r"
  obtains qid e where "py_getitem q (PStr ''question_id'') = Inr qid"
    and "parent_entry q = Inr e"
    and "parents_loop rest (dict_setitem out0 qid e) = Inr r"
proof -
  from assms obtain qid e out1 where "py_getitem q (PStr ''question_id'') = Inr qid"
    "parent_entry q = Inr e" "py_setitem out0 qid e = Inr out1" "parents_loop rest out1 = Inr r"
    by (auto simp: ebind_eq_Inr)
  moreover from this have "out1 = dict_setitem out0 qid e"
    by (auto simp: py_setitem_def split: if_splits)
  ultimately show thesis using that by simp
qed

lemma parents_loop_distinct:
  "parents_loop pqs out0 = Inr r \<Longrightarrow> distinct (map (key_norm \<circ> fst) out0) \<Longrightarrow>
     distinct (map (key_norm \<circ> fst) r)"
proof (induction pqs arbitrary: out0)
  case Nil
  then show ?case by simp
next
  case (Cons q rest)
  from Cons.prems(1) obtain qid e where
    "parents_loop rest (dict_setitem out0 qid e) = Inr r"
    by (rule parents_loop_step)
  then show ?case
    using Cons.IH Cons.prems(2) dict_setitem_distinct by blast
qed

lemma parents_loop_keeps:
  "parents_loop pqs out0 = Inr r \<Longrightarrow> dict_find out0 k = Some e \<Longrightarrow>
   is_parent_question e = Inr True \<Longrightarrow>
   \<exists>e'. dict_find r k = Some e' \<and> is_parent_question e' = Inr True"
proof (induction pqs arbitrary: out0 e)
  case Nil
  then show ?case by simp
next
  case (Cons q rest)
  from Cons.prems(1) obtain qid e0 where
    entry: "parent_entry q = Inr e0" and
    loop: "parents_loop rest (dict_setitem out0 qid e0) = Inr r"
    by (rule parents_loop_step)
  show ?case
  proof (cases "key_eq qid k")
    case True
    then have "dict_find (dict_setitem out0 qid e0) k = Some e0"
      by (simp add: dict_find_setitem)
    from Cons.IH [OF loop this parent_entry_flagged [OF entry]] show ?thesis .
  next
    case False
    with Cons.prems(2) have "dict_find (dict_setitem out0 qid e0) k = Some e"
      by (simp add: dict_find_setitem)
    from Cons.IH [OF loop this Cons.prems(3)] show ?thesis .
  qed
qed

lemma parents_loop_ids:
  "parents_loop pqs out0 = Inr r \<Longrightarrow> q \<in> set pqs \<Longrightarrow>
   py_getitem q (PStr ''question_id'') = Inr qid \<Longrightarrow>
   \<exists>e. dict_find r qid = Some e \<and> is_parent_question e = Inr True"
proof (induction pqs arbitrary: out0)
  case Nil
  then show ?case by simp
next
  case (Cons p rest)
  from Cons.prems(1) obtain pid e0 where
    pid: "py_getitem p (PStr ''question_id'') = Inr pid" and
    entry: "parent_entry p = Inr e0" and
    loop: "parents_loop rest (dict_setitem out0 pid e0) = Inr r"
    by (rule parents_loop_step)
  show ?case
  proof (cases "q \<in> set rest")
    case True
    from Cons.IH [OF loop True Cons.prems(3)] show ?thesis .
  next
    case False
    with Cons.prems(2) have "q = p" by simp
    with pid Cons.prems(3) have "pid = qid" by simp
    then have "dict_find (dict_setitem out0 pid e0) qid = Some e0"
      by (simp add: dict_find_setitem)
    from parents_loop_keeps [OF loop this parent_entry_flagged [OF entry]] show ?thesis .
  qed
qed

lemma parent_question_ok_entry:
  assumes "parent_question_ok q"
  shows "\<exists>qid e. py_getitem q (PStr ''question_id'') = Inr qid \<and> hashable qid
           \<and> parent_entry q = Inr e"
proof -
  from assms obtain d where q: "q = PDict d"
    and keys: "has_key d ''question_id''" "hashable (dict_get d ''question_id'' PNone)"
      "has_key d ''label''" "has_key d ''type''"
    by (cases q) (auto simp: parent_question_ok_def)
  then show ?thesis
    by (auto simp: has_key_def dict_getitem_def dict_get_def parent_entry_def)
qed

lemma parents_loop_ok:
  "\<forall>q\<in>set pqs. parent_question_ok q \<Longrightarrow> \<exists>r. parents_loop pqs out0 = Inr r"
proof (induction pqs arbitrary: out0)
  case Nil
  show ?case by simp
next
  case (Cons q rest)
  from Cons.prems have "parent_question_ok q" by simp
  from parent_question_ok_entry [OF this] obtain qid e where
    "py_getitem q (PStr ''question_id'') = Inr qid" "hashable qid" "parent_entry q = Inr e"
    by blast
  moreover from Cons.IH [of "dict_setitem out0 qid e"] Cons.prems
  obtain r where "parents_loop rest (dict_setitem out0 qid e) = Inr r" by auto
  ultimately show ?case by (simp add: py_setitem_def)
qed

lemma generate_conditional_logic_NotJSON:
  "cond_summary fields = Inr s \<Longrightarrow>
   generate_conditional_logic lower NotJSON llm fields = fields_loop lower (PDict []) llm 0 fields []"
  by (simp add: generate_conditional_logic_def fallback_logic_def dict_get_def)

lemma generate_conditional_logic_Parsed:
  "cond_summary fields = Inr s \<Longrightarrow>
   py_iter (dict_get cl ''parent_questions'' (PList [])) = Inr pqs \<Longrightarrow>
   dict_get cl ''field_relationships'' (PDict []) = PDict rel \<Longrightarrow>
   generate_conditional_logic lower (Parsed (PDict cl)) llm fields =
     ebind (parents_loop pqs []) (\<lambda>out0. fields_loop lower (PDict rel) llm 0 fields out0)"
  by (simp add: generate_conditional_logic_def)

lemma parent_count_zero:
  assumes "\<forall>(k, e)\<in>set out. is_parent_question e = Inr False"
  shows "parent_count out = Inr 0"
proof -
  have "emap is_parent_question (map snd out) = Inr (map (\<lambda>e. False) (map snd out))"
    by (rule emap_all_Inr) (use assms in auto)
  then show ?thesis by (simp add: parent_count_def)
qed

text \<open>
  C3, as stated, fails: after an answer that does not decode, the
  \<^verbatim>\<open>_metadata\<close> of a field entry does carry the key \<^verbatim>\<open>parent\<close>; its value is
  \<^verbatim>\<open>None\<close>.
\<close>

theorem parent_key_counterexample:
  "generate_conditional_logic ascii_lower NotJSON (label_reply undecodable) [name_field]
     = Inr [(PStr ''Name'', PDict name_entry)]
   \<and> dict_find name_entry (PStr ''_metadata'') = Some (PDict name_metadata)
   \<and> has_key name_metadata ''parent''
   \<and> dict_find name_metadata (PStr ''parent'') = Some PNone"
  by code_simp

lemma field_entry_returns:
  assumes "field_entry lower rel reply idx f = Inr (n, e)"
  shows "str_key f ''field_name'' \<and> label_ok reply"
proof -
  from field_entry_name [OF assms] have "str_key f ''field_name''"
    by (auto simp: str_key_def)
  moreover have "label_ok reply"
  proof (cases reply)
    case (Parsed v)
    with assms have "\<not> isl (py_getitem v (PStr ''label''))"
      "\<not> isl (py_getitem v (PStr ''explanation''))"
      by (auto simp: field_entry_def ebind_eq_Inr generate_label_and_explanation_def)
    with Parsed show ?thesis by (simp add: label_ok_def)
  qed (simp_all add: label_ok_def)
  ultimately show ?thesis by simp
qed

lemma fields_loop_returns:
  "fields_loop lower rel llm idx fs out0 = Inr r \<Longrightarrow>
   (\<forall>f\<in>set fs. str_key f ''field_name'') \<and> (\<forall>i<length fs. label_ok (llm (idx + i)))"
proof (induction fs arbitrary: idx out0)
  case Nil
  show ?case by simp
next
  case (Cons f rest)
  from Cons.prems obtain n e where
    entry: "field_entry lower rel (llm idx) idx f = Inr (n, e)" and
    loop: "fields_loop lower rel llm (Suc idx) rest (dict_setitem out0 n e) = Inr r"
    by (rule fields_loop_step)
  from field_entry_returns [OF entry] have here: "str_key f ''field_name''" "label_ok (llm idx)"
    by simp_all
  from Cons.IH [OF loop] have there: "\<forall>f\<in>set rest. str_key f ''field_name''"
    "\<forall>i<length rest. label_ok (llm (Suc idx + i))"
    by simp_all
  have "label_ok (llm (idx + i))" if "i < length (f # rest)" for i
  proof (cases i)
    case 0
    with here show ?thesis by simp
  next
    case (Suc j)
    with that there(2) show ?thesis by simp
  qed
  with here there show ?case by simp
qed

lemma generate_conditional_logic_NotJSON_returns:
  assumes "generate_conditional_logic lower NotJSON llm fields = Inr out"
  shows "fields_loop lower (PDict []) llm 0 fields [] = Inr out"
proof -
  from assms obtain s where "cond_summary fields = Inr s"
    by (auto simp: generate_conditional_logic_def ebind_eq_Inr)
  from generate_conditional_logic_NotJSON [OF this, of lower llm] assms show ?thesis by simp
qed

text \<open>A label answer without \<^verbatim>\<open>label\<close> is returned as it is, and the assembly raises.\<close>

lemma empty_label_answer_raises:
  "\<not> label_ok (empty_labels 0)
   \<and> generate_conditional_logic ascii_lower NotJSON empty_labels [name_field] = Inl KeyError"
  by code_simp

text \<open>
  C3, amended. When the answer to the structural-synthesis request does not
  decode, every schema the assembly returns has an entry for every field,
  has no entry flagged as a parent question (the count of parent questions
  is 0), and the \<^verbatim>\<open>_metadata\<close> of every entry has the key \<^verbatim>\<open>parent\<close> with the
  value \<^verbatim>\<open>None\<close> and no key \<^verbatim>\<open>parent_condition\<close>. The assembly returns a
  schema exactly when every \<^verbatim>\<open>field_name\<close> is a string and every label request
  either failed or was answered with a \<^verbatim>\<open>label\<close> and an \<^verbatim>\<open>explanation\<close>.
\<close>

theorem conditional_logic_fallback:
  "((\<exists>out. generate_conditional_logic lower NotJSON label_llm fields = Inr out)
      \<longleftrightarrow> (\<forall>f\<in>set fields. str_key f ''field_name'')
           \<and> (\<forall>i<length fields. label_ok (label_llm i)))
   \<and> (\<forall>out. generate_conditional_logic lower NotJSON label_llm fields = Inr out \<longrightarrow>
          parent_count out = Inr 0
        \<and> (\<forall>f\<in>set fields. \<exists>e. dict_find out (dict_get f ''field_name'' PNone) = Some e)
        \<and> (\<forall>(k, e)\<in>set out. is_parent_question e = Inr False \<and> unconditional e))"
proof -
  have returns: "(\<forall>f\<in>set fields. str_key f ''field_name'')
                 \<and> (\<forall>i<length fields. label_ok (label_llm i))"
    if "\<exists>out. generate_conditional_logic lower NotJSON label_llm fields = Inr out"
  proof -
    from that obtain out where "fields_loop lower (PDict []) label_llm 0 fields [] = Inr out"
      using generate_conditional_logic_NotJSON_returns by blast
    from fields_loop_returns [OF this] show ?thesis by simp
  qed
  have assembles: "\<exists>out. generate_conditional_logic lower NotJSON label_llm fields = Inr out"
    if ok: "(\<forall>f\<in>set fields. str_key f ''field_name'')
            \<and> (\<forall>i<length fields. label_ok (label_llm i))"
  proof -
    from ok have "\<forall>f\<in>set fields. has_key f ''field_name''"
      by (auto simp: str_key_has_key)
    from cond_summary_ok [OF this] obtain s where s: "cond_summary fields = Inr s" ..
    from ok have names: "\<forall>f\<in>set fields. str_key f ''field_name''"
      and labels: "\<forall>i<length fields. label_ok (label_llm (0 + i))" by simp_all
    from fields_loop_ok [OF names labels, of lower "[]" "[]"] obtain out
      where "fields_loop lower (PDict []) label_llm 0 fields [] = Inr out" ..
    with generate_conditional_logic_NotJSON [OF s, of lower label_llm]
    show ?thesis by simp
  qed
  have schema: "parent_count out = Inr 0
        \<and> (\<forall>f\<in>set fields. \<exists>e. dict_find out (dict_get f ''field_name'' PNone) = Some e)
        \<and> (\<forall>(k, e)\<in>set out. is_parent_question e = Inr False \<and> unconditional e)"
    if run: "generate_conditional_logic lower NotJSON label_llm fields = Inr out" for out
  proof -
    from run have loop: "fields_loop lower (PDict []) label_llm 0 fields [] = Inr out"
      by (rule generate_conditional_logic_NotJSON_returns)
    have entries: "\<forall>(k, e)\<in>set out. is_parent_question e = Inr False \<and> unconditional e"
    proof (intro ballI, clarify)
      fix k e assume "(k, e) \<in> set out"
      from fields_loop_entries [OF loop this] obtain i n
        where "field_entry lower (PDict []) (label_llm (0 + i)) (0 + i) (fields ! i) = Inr (n, e)"
        by auto
      then show "is_parent_question e = Inr False \<and> unconditional e"
        using field_entry_not_parent field_entry_unconditional by blast
    qed
    then have "\<forall>(k, e)\<in>set out. is_parent_question e = Inr False" by auto
    then have count: "parent_count out = Inr 0" by (rule parent_count_zero)
    have present: "\<forall>f\<in>set fields. \<exists>e. dict_find out (dict_get f ''field_name'' PNone) = Some e"
    proof
      fix f assume "f \<in> set fields"
      from fields_loop_field_keys [OF loop this]
      show "\<exists>e. dict_find out (dict_get f ''field_name'' PNone) = Some e"
        by (auto simp: dict_get_def)
    qed
    from count present entries show ?thesis by simp
  qed
  from returns assembles schema show ?thesis by blast
qed

theorem conditional_logic_fallback_witness:
  "\<exists>out. generate_conditional_logic ascii_lower NotJSON first_label_only three_fields = Inr out
      \<and> parent_count out = Inr 0
      \<and> (\<forall>f\<in>set three_fields. \<exists>e. dict_find out (dict_get f ''field_name'' PNone) = Some e)
      \<and> (\<forall>(k, e)\<in>set out. is_parent_question e = Inr False \<and> unconditional e)"
proof -
  have h1: "\<forall>f\<in>set three_fields. str_key f ''field_name''"
    by code_simp
  have h2: "\<forall>i<length three_fields. label_ok (first_label_only i)"
    by (simp add: label_ok_def first_label_only_def dict_getitem_def)
  from conditional_logic_fallback [of ascii_lower first_label_only three_fields] h1 h2
  show ?thesis by blast
qed

text \<open>
  C4. Schema assembly stores the parent questions, each under its
  \<^verbatim>\<open>question_id\<close>, before any field, each under its \<^verbatim>\<open>field_name\<close>: the keys of
  the parent questions are the first keys of the output. Nothing detects or
  rejects a key that is already there: the assembly returns whatever keys
  collide, the keys of the output are unique, the entry under a field's name
  is the entry of the last field of that name and never a parent question,
  and a parent question keeps its entry only if no field has its id as name.
\<close>

theorem schema_assembly_last_write_wins:
  assumes "\<forall>f\<in>set fields. str_key f ''field_name''"
      and "\<forall>i<length fields. label_ok (label_llm i)"
      and "py_iter (dict_get cl ''parent_questions'' (PList [])) = Inr pqs"
      and "\<forall>q\<in>set pqs. parent_question_ok q"
      and "dict_get cl ''field_relationships'' (PDict []) = PDict rel"
  shows "\<exists>out0 out.
           parents_loop pqs [] = Inr out0
         \<and> generate_conditional_logic lower (Parsed (PDict cl)) label_llm fields = Inr out
         \<and> take (length out0) (map fst out) = map fst out0
         \<and> distinct (map (key_norm \<circ> fst) out)
         \<and> (\<forall>i<length fields.
              (\<forall>j<length fields. i < j \<longrightarrow>
                 dict_find (fields ! j) (PStr ''field_name'') \<noteq> dict_find (fields ! i) (PStr ''field_name''))
              \<longrightarrow> (\<exists>n e. field_entry lower (PDict rel) (label_llm i) i (fields ! i) = Inr (n, e)
                       \<and> dict_find out n = Some e))
         \<and> (\<forall>f\<in>set fields. \<exists>e. dict_find out (dict_get f ''field_name'' PNone) = Some e
                                  \<and> is_parent_question e = Inr False)
         \<and> (\<forall>q\<in>set pqs. \<forall>qid. py_getitem q (PStr ''question_id'') = Inr qid \<longrightarrow>
              (\<forall>f\<in>set fields. dict_find f (PStr ''field_name'') \<noteq> Some qid) \<longrightarrow>
              (\<exists>e. dict_find out qid = Some e \<and> is_parent_question e = Inr True))"
proof -
  from assms(1) have "\<forall>f\<in>set fields. has_key f ''field_name''"
    by (auto simp: str_key_has_key)
  from cond_summary_ok [OF this] obtain s where s: "cond_summary fields = Inr s" ..
  from parents_loop_ok [OF assms(4), of "[]"] obtain out0
    where parents: "parents_loop pqs [] = Inr out0" ..
  from assms(2) have "\<forall>i<length fields. label_ok (label_llm (0 + i))" by simp
  from fields_loop_ok [OF assms(1) this, of lower rel out0] obtain out
    where loop: "fields_loop lower (PDict rel) label_llm 0 fields out0 = Inr out" ..
  from generate_conditional_logic_Parsed [OF s assms(3,5), of lower label_llm] parents loop
  have run: "generate_conditional_logic lower (Parsed (PDict cl)) label_llm fields = Inr out"
    by simp
  from fields_loop_prefix [OF loop] obtain new where "map fst out = map fst out0 @ new" ..
  then have prefix: "take (length out0) (map fst out) = map fst out0" by simp
  from parents_loop_distinct [OF parents] have "distinct (map (key_norm \<circ> fst) out0)" by simp
  with fields_loop_distinct [OF loop] have dist: "distinct (map (key_norm \<circ> fst) out)" by simp
  have last: "\<forall>i<length fields.
              (\<forall>j<length fields. i < j \<longrightarrow>
                 dict_find (fields ! j) (PStr ''field_name'') \<noteq> dict_find (fields ! i) (PStr ''field_name''))
              \<longrightarrow> (\<exists>n e. field_entry lower (PDict rel) (label_llm i) i (fields ! i) = Inr (n, e)
                       \<and> dict_find out n = Some e)"
  proof (intro allI impI)
    fix i assume "i < length fields"
      and "\<forall>j<length fields. i < j \<longrightarrow>
             dict_find (fields ! j) (PStr ''field_name'') \<noteq> dict_find (fields ! i) (PStr ''field_name'')"
    from fields_loop_last_wins [OF loop this]
    show "\<exists>n e. field_entry lower (PDict rel) (label_llm i) i (fields ! i) = Inr (n, e)
                \<and> dict_find out n = Some e"
      by simp
  qed
  have fld: "\<forall>f\<in>set fields. \<exists>e. dict_find out (dict_get f ''field_name'' PNone) = Some e
                                  \<and> is_parent_question e = Inr False"
  proof
    fix f assume "f \<in> set fields"
    from fields_loop_field_keys [OF loop this]
    show "\<exists>e. dict_find out (dict_get f ''field_name'' PNone) = Some e
              \<and> is_parent_question e = Inr False"
      by (auto simp: dict_get_def)
  qed
  have par: "\<forall>q\<in>set pqs. \<forall>qid. py_getitem q (PStr ''question_id'') = Inr qid \<longrightarrow>
              (\<forall>f\<in>set fields. dict_find f (PStr ''field_name'') \<noteq> Some qid) \<longrightarrow>
              (\<exists>e. dict_find out qid = Some e \<and> is_parent_question e = Inr True)"
  proof (intro ballI allI impI)
    fix q qid assume "q \<in> set pqs" "py_getitem q (PStr ''question_id'') = Inr qid"
      and free: "\<forall>f\<in>set fields. dict_find f (PStr ''field_name'') \<noteq> Some qid"
    from parents_loop_ids [OF parents this(1,2)] obtain e
      where "dict_find out0 qid = Some e" "is_parent_question e = Inr True" by blast
    with fields_loop_other_keys [OF loop free]
    show "\<exists>e. dict_find out qid = Some e \<and> is_parent_question e = Inr True" by simp
  qed
  from parents run prefix dist last fld par show ?thesis by blast
qed

theorem schema_assembly_last_write_wins_witness:
  "generate_conditional_logic ascii_lower (Parsed (PDict colliding_logic)) (label_reply undecodable)
       [name_field, other_name_field]
     = Inr [(PStr ''Name'', other_name_entry), (PStr ''has_spouse'', spouse_entry)]
   \<and> field_entry ascii_lower (PDict spouse_relationships) (label_reply undecodable 1) 1 other_name_field
       = Inr (PStr ''Name'', other_name_entry)
   \<and> (\<exists>out0 out.
         parents_loop colliding_questions [] = Inr out0
       \<and> generate_conditional_logic ascii_lower (Parsed (PDict colliding_logic)) (label_reply undecodable)
            [name_field, other_name_field] = Inr out
       \<and> take (length out0) (map fst out) = map fst out0
       \<and> distinct (map (key_norm \<circ> fst) out)
       \<and> (\<forall>f\<in>set [name_field, other_name_field].
             \<exists>e. dict_find out (dict_get f ''field_name'' PNone) = Some e
                \<and> is_parent_question e = Inr False))"
proof -
  have h1: "\<forall>f\<in>set [name_field, other_name_field]. str_key f ''field_name''"
    by code_simp
  have h2: "\<forall>i<length [name_field, other_name_field]. label_ok (label_reply undecodable i)"
    by (simp add: label_ok_def undecodable_def)
  have h3: "py_iter (dict_get colliding_logic ''parent_questions'' (PList [])) = Inr colliding_questions"
    by code_simp
  have h4: "\<forall>q\<in>set colliding_questions. parent_question_ok q"
    by code_simp
  have h5: "dict_get colliding_logic ''field_relationships'' (PDict []) = PDict spouse_relationships"
    by code_simp
  have run: "generate_conditional_logic ascii_lower (Parsed (PDict colliding_logic)) (label_reply undecodable)
               [name_field, other_name_field]
             = Inr [(PStr ''Name'', other_name_entry), (PStr ''has_spouse'', spouse_entry)]"
    by code_simp
  have entry: "field_entry ascii_lower (PDict spouse_relationships) (label_reply undecodable 1) 1 other_name_field
                 = Inr (PStr ''Name'', other_name_entry)"
    by code_simp
  from schema_assembly_last_write_wins [OF h1 h2 h3 h4 h5] run entry
  show ?thesis by blast
qed

end
